theory Spec2Isabelle
  imports Main
begin

section \<open>Events\<close>

text \<open>
  The event kinds and incremental sources that \<open>src/record/index.ts\<close> refers to.
  An event is the tagged union \<open>{type, data}\<close>; \<open>wrapEvent\<close> adds the timestamp.
  Serialized trees, identifier maps and detector payloads are opaque to the
  recorder and are represented by numbers.
\<close>

datatype EventType =
  DomContentLoaded | Load | FullSnapshot | IncrementalSnapshot | Meta | Custom

datatype IncrementalSource =
  Mutation | MouseMove | MouseInteraction | Scroll | ViewportResize | Input
  | TouchMove | MediaInteraction | StyleSheetRule | CanvasMutation | Font | Log

type_synonym node = nat
type_synonym idNodeMap = nat

datatype event =
    DomContentLoadedEvent
  | LoadEvent
  | FullSnapshotEvent node int int
  | IncrementalSnapshotEvent IncrementalSource "nat list"
  | MetaEvent string int int
  | CustomEvent string string

fun type_of :: "event \<Rightarrow> EventType" where
  "type_of DomContentLoadedEvent = DomContentLoaded"
| "type_of LoadEvent = Load"
| "type_of (FullSnapshotEvent n l t) = FullSnapshot"
| "type_of (IncrementalSnapshotEvent src d) = IncrementalSnapshot"
| "type_of (MetaEvent h w ht) = Meta"
| "type_of (CustomEvent tag payload) = Custom"

fun source_of :: "event \<Rightarrow> IncrementalSource option" where
  "source_of (IncrementalSnapshotEvent src d) = Some src"
| "source_of _ = None"

record eventWithTime =
  ev :: event
  timestamp :: int

section \<open>Errors, outcomes and observable actions\<close>

datatype error = Error string | TypeError string

datatype warning = WarnMessage string | WarnError error

datatype delivered = Plain eventWithTime | Packed string

text \<open>
  Every call the recorder makes on a collaborator is appended to a trace: the
  consumer callback \<open>onEmit\<close>, \<open>console.warn\<close>, the methods of the mutation
  buffers, the serializer \<open>snapshot\<close> and the assignment to \<open>mirror.map\<close>.
\<close>

datatype action =
    OnEmit delivered "bool option"
  | ConsoleWarn warning
  | BufLock nat
  | BufUnlock nat
  | BufFreeze nat
  | BufUnfreeze nat
  | SnapshotCall
  | MirrorMapSet idNodeMap

section \<open>The mutation buffer\<close>

text \<open>
  Modelled from the spec: the class \<open>MutationBuffer\<close> (\<open>record/mutation.ts\<close>, reached
  through \<open>mutationBuffers\<close> of \<open>record/observer.ts\<close>) is not among the sources. The
  spec gives it the states active/paused and the serialize lock; mutations detected
  while paused or locked are withheld in detection order, and a buffer that becomes
  active and unlocked drains them through the normal forwarding path, that is
  through the \<open>mutationCb\<close> the recorder passed to \<open>initObservers\<close>. A buffer never
  forwards while locked or paused.
\<close>

record MutationBuffer =
  frozen :: bool
  locked :: bool
  pending :: "nat list"

text \<open>
  A detector in place: an event listener registered with \<open>on\<close>, or the observer
  set of a document (\<open>0\<close> is the main document).
\<close>

datatype detector = Listener string | Observers nat

datatype readyState = Loading | Interactive | Complete

text \<open>
  The state the recorder works on: the module-level array \<open>mutationBuffers\<close>,
  \<open>mirror.map\<close>, the closure variables \<open>lastFullSnapshotEvent\<close> and
  \<open>incrementalSnapshotCount\<close> of the recorder (lines 159 and 160), whether the module
  variable \<open>recorder\<close> is set (line 469), the field \<open>recording\<close> (line 33), the array
  \<open>handlers\<close> of \<open>record\<close> (line 397), the detectors in place, the trace of actions, and
  how often \<open>Date.now\<close> and the serializer have been called.
\<close>

record world =
  mutationBuffers :: "MutationBuffer list"
  mirror_map :: idNodeMap
  lastFullSnapshotEvent :: "eventWithTime option"
  incrementalSnapshotCount :: int
  recorder :: bool
  recording :: bool
  handlers :: "detector list"
  attached :: "detector list"
  trace :: "action list"
  ticks :: nat
  snapshots :: nat

datatype 'a outcome = Returned 'a world | Thrown error world

fun world_of :: "'a outcome \<Rightarrow> world" where
  "world_of (Returned v s) = s"
| "world_of (Thrown err s) = s"

section \<open>Environment and options\<close>

text \<open>
  What the recorder reads from the page: \<open>Date.now()\<close> (the \<open>n\<close>-th call returns
  \<open>clock n\<close>), the serializer (the \<open>n\<close>-th call of \<open>snapshot\<close> returns
  \<open>snapshot n\<close>, whose first component is the node or \<open>null\<close>), the window
  geometry, the scroll offsets and \<open>document.readyState\<close>.
\<close>

record env =
  clock :: "nat \<Rightarrow> int"
  snapshot :: "nat \<Rightarrow> node option \<times> idNodeMap"
  location_href :: string
  windowWidth :: int
  windowHeight :: int
  pageXOffset :: "int option"
  pageYOffset :: "int option"
  documentElement_scroll :: "int \<times> int"
  parentElement_scroll :: "(int \<times> int) option"
  body_scroll :: "int \<times> int"
  document_readyState :: readyState

datatype inputKind =
  kind_color | kind_date | kind_datetime_local | kind_email | kind_month
  | kind_number | kind_range | kind_search | kind_tel | kind_text | kind_time
  | kind_url | kind_week | kind_textarea | kind_select

type_synonym MaskInputOptions = "inputKind \<Rightarrow> bool option"

datatype consumer = Consumer

record recordOptions =
  emit :: "consumer option"
  checkoutEveryNms :: "int option"
  checkoutEveryNth :: "int option"
  maskAllInputs :: "bool option"
  maskInputOptions :: "MaskInputOptions option"
  packFn :: "(eventWithTime \<Rightarrow> string) option"

section \<open>The recorder\<close>

definition wrapEvent :: "env \<Rightarrow> event \<Rightarrow> world \<Rightarrow> eventWithTime \<times> world" where
  "wrapEvent en e s =
     (\<lparr>ev = e, timestamp = clock en (ticks s)\<rparr>, s\<lparr>ticks := Suc (ticks s)\<rparr>)"

text \<open>The constructor's \<open>maskInputOptions\<close> (lines 73 to 94).\<close>

definition maskInputOptions_of :: "recordOptions \<Rightarrow> MaskInputOptions" where
  "maskInputOptions_of opts =
     (if maskAllInputs opts = Some True then (\<lambda>k. Some True)
      else (case maskInputOptions opts of Some m \<Rightarrow> m | None \<Rightarrow> (\<lambda>k. None)))"

definition masks :: "MaskInputOptions \<Rightarrow> inputKind \<Rightarrow> bool" where
  "masks m k = (m k = Some True)"

definition log_action :: "action \<Rightarrow> world \<Rightarrow> world" where
  "log_action a s = s\<lparr>trace := trace s @ [a]\<rparr>"

definition console_warn :: "warning \<Rightarrow> world \<Rightarrow> world" where
  "console_warn w s = log_action (ConsoleWarn w) s"

text \<open>\<open>onEmit(packFn ? packFn(e) : e, isCheckout)\<close>\<close>

definition deliver :: "recordOptions \<Rightarrow> eventWithTime \<Rightarrow> delivered" where
  "deliver opts e = (case packFn opts of Some f \<Rightarrow> Packed (f e) | None \<Rightarrow> Plain e)"

definition onEmit :: "recordOptions \<Rightarrow> eventWithTime \<Rightarrow> bool option \<Rightarrow> world \<Rightarrow> world" where
  "onEmit opts e isCheckout s = log_action (OnEmit (deliver opts e) isCheckout) s"

subsection \<open>Mutation buffer methods\<close>

text \<open>A buffer is addressed by its index in the array \<open>mutationBuffers\<close>.\<close>

definition set_buffer :: "nat \<Rightarrow> MutationBuffer \<Rightarrow> world \<Rightarrow> world" where
  "set_buffer i b s = s\<lparr>mutationBuffers := (mutationBuffers s)[i := b]\<rparr>"

text \<open>\<open>mutationBuffers[0]?.isFrozen()\<close>: undefined, hence falsy, when there is no buffer.\<close>

definition first_isFrozen :: "world \<Rightarrow> bool" where
  "first_isFrozen s = (case mutationBuffers s of [] \<Rightarrow> False | b # bs \<Rightarrow> frozen b)"

text \<open>
  Modelled from the spec: \<open>freeze\<close> and \<open>lock\<close> of the absent class \<open>MutationBuffer\<close>
  put the buffer into the states paused and serialize-locked. The loops call the
  methods on indices that exist.
\<close>

definition buffer_freeze :: "nat \<Rightarrow> world \<Rightarrow> world" where
  "buffer_freeze i s =
     log_action (BufFreeze i) (set_buffer i ((mutationBuffers s ! i)\<lparr>frozen := True\<rparr>) s)"

definition buffer_lock :: "nat \<Rightarrow> world \<Rightarrow> world" where
  "buffer_lock i s =
     log_action (BufLock i) (set_buffer i ((mutationBuffers s ! i)\<lparr>locked := True\<rparr>) s)"

text \<open>
  Modelled from the spec: \<open>emit\<close> of the absent class \<open>MutationBuffer\<close> forwards
  nothing while the buffer is paused or locked and nothing when no mutation is
  withheld; otherwise the queue is reset and handed, in detection order, to the
  emission callback \<open>cb\<close>.
\<close>

definition buffer_emit ::
  "(nat list \<Rightarrow> world \<Rightarrow> unit outcome option) \<Rightarrow> nat \<Rightarrow> world \<Rightarrow> unit outcome option" where
  "buffer_emit cb i s =
     (let b = mutationBuffers s ! i in
      if frozen b \<or> locked b then Some (Returned () s)
      else if pending b = [] then Some (Returned () s)
      else cb (pending b) (set_buffer i (b\<lparr>pending := []\<rparr>) s))"

text \<open>
  Modelled from the spec: \<open>unfreeze\<close> and \<open>unlock\<close> of the absent class
  \<open>MutationBuffer\<close> leave the state and drain the queue ("release every lock, which
  causes each buffer to flush any mutations detected", "resumes all Mutation Buffers
  ..., flushing whatever tree mutations accumulated during the pause").
\<close>

definition buffer_unfreeze ::
  "(nat list \<Rightarrow> world \<Rightarrow> unit outcome option) \<Rightarrow> nat \<Rightarrow> world \<Rightarrow> unit outcome option" where
  "buffer_unfreeze cb i s =
     buffer_emit cb i
       (log_action (BufUnfreeze i) (set_buffer i ((mutationBuffers s ! i)\<lparr>frozen := False\<rparr>) s))"

definition buffer_unlock ::
  "(nat list \<Rightarrow> world \<Rightarrow> unit outcome option) \<Rightarrow> nat \<Rightarrow> world \<Rightarrow> unit outcome option" where
  "buffer_unlock cb i s =
     buffer_emit cb i
       (log_action (BufUnlock i) (set_buffer i ((mutationBuffers s ! i)\<lparr>locked := False\<rparr>) s))"

text \<open>
  Modelled from the spec: the absent class \<open>MutationBuffer\<close> receives the mutations
  its document's detector reports. "Detected mutations in locked or paused states
  are appended to an internal pending queue, strictly ordered by detection time";
  an active, unlocked buffer forwards them at once to the emission callback.
\<close>

definition buffer_processMutations ::
  "(nat list \<Rightarrow> world \<Rightarrow> unit outcome option) \<Rightarrow> nat \<Rightarrow> nat list \<Rightarrow> world \<Rightarrow> unit outcome option" where
  "buffer_processMutations cb i ms s =
     buffer_emit cb i
       (set_buffer i ((mutationBuffers s ! i)\<lparr>pending := pending (mutationBuffers s ! i) @ ms\<rparr>) s)"

text \<open>
  \<open>mutationBuffers.forEach(f)\<close> visits the indices that existed when the loop began
  and skips an index that no longer exists. An exception thrown by \<open>f\<close> ends the loop;
  \<open>None\<close> is a callback that ran out of fuel.
\<close>

fun forEach ::
  "(nat \<Rightarrow> world \<Rightarrow> unit outcome option) \<Rightarrow> nat list \<Rightarrow> world \<Rightarrow> unit outcome option" where
  "forEach f [] s = Some (Returned () s)"
| "forEach f (i # is) s =
     (if i < length (mutationBuffers s) then
        (case f i s of
           None \<Rightarrow> None
         | Some (Thrown err s') \<Rightarrow> Some (Thrown err s')
         | Some (Returned u s') \<Rightarrow> forEach f is s')
      else forEach f is s)"

fun forEach_pure :: "(nat \<Rightarrow> world \<Rightarrow> world) \<Rightarrow> nat list \<Rightarrow> world \<Rightarrow> world" where
  "forEach_pure f [] s = s"
| "forEach_pure f (i # is) s =
     (if i < length (mutationBuffers s) then forEach_pure f is (f i s) else forEach_pure f is s)"

definition indices :: "world \<Rightarrow> nat list" where
  "indices s = [0 ..< length (mutationBuffers s)]"

subsection \<open>The emit pipeline and the checkpoint\<close>

text \<open>
  \<open>exceedTime\<close> (lines 183 to 185): \<open>checkoutEveryNms && e.timestamp -
  lastFullSnapshotEvent.timestamp > checkoutEveryNms\<close>. An undefined or zero interval
  is falsy and nothing is read; otherwise reading \<open>timestamp\<close> of an undefined
  \<open>lastFullSnapshotEvent\<close> throws a TypeError.
\<close>

definition exceedTime :: "recordOptions \<Rightarrow> eventWithTime \<Rightarrow> world \<Rightarrow> error + bool" where
  "exceedTime opts e s =
     (case checkoutEveryNms opts of
        None \<Rightarrow> Inr False
      | Some ms \<Rightarrow>
          if ms = 0 then Inr False
          else (case lastFullSnapshotEvent s of
                  None \<Rightarrow> Inl (TypeError ''Cannot read property timestamp of undefined'')
                | Some f \<Rightarrow> Inr (timestamp e - timestamp f > ms)))"

definition exceedCount :: "recordOptions \<Rightarrow> world \<Rightarrow> bool" where
  "exceedCount opts s =
     (case checkoutEveryNth opts of
        None \<Rightarrow> False
      | Some n \<Rightarrow> n \<noteq> 0 \<and> incrementalSnapshotCount s \<ge> n)"

definition resumes :: "world \<Rightarrow> eventWithTime \<Rightarrow> bool" where
  "resumes s e =
     (first_isFrozen s \<and> type_of (ev e) \<noteq> FullSnapshot \<and>
      \<not> (type_of (ev e) = IncrementalSnapshot \<and> source_of (ev e) = Some Mutation))"

text \<open>
  The scroll offset of the \<open>FullSnapshot\<close> (lines 373 to 387): \<open>window.pageXOffset\<close>
  when it is defined, else the first truthy of the three \<open>scrollLeft\<close> readings,
  else \<open>0\<close>.
\<close>

definition or_else :: "int option \<Rightarrow> int \<Rightarrow> int" where
  "or_else a b = (case a of None \<Rightarrow> b | Some x \<Rightarrow> if x = 0 then b else x)"

definition initialOffset :: "int option \<Rightarrow> int \<Rightarrow> int option \<Rightarrow> int \<Rightarrow> int" where
  "initialOffset page docEl parent body =
     (case page of
        Some p \<Rightarrow> p
      | None \<Rightarrow> or_else (Some docEl) (or_else parent (or_else (Some body) 0)))"

definition lock_all :: "world \<Rightarrow> world" where
  "lock_all s = forEach_pure buffer_lock (indices s) s"

definition call_snapshot :: "env \<Rightarrow> world \<Rightarrow> (node option \<times> idNodeMap) \<times> world" where
  "call_snapshot en s =
     (snapshot en (snapshots s), log_action SnapshotCall (s\<lparr>snapshots := Suc (snapshots s)\<rparr>))"

text \<open>
  \<open>wrappedEmit\<close> (lines 161 to 190) and \<open>takeFullSnapshot\<close> (lines 337 to 393) call
  each other, and the buffers call \<open>wrappedEmit\<close> back through \<open>mutationCb\<close> (lines 208
  to 217). The first argument bounds the depth of these calls; \<open>None\<close> means the
  bound was reached.
\<close>

fun wrappedEmit ::
      "nat \<Rightarrow> env \<Rightarrow> recordOptions \<Rightarrow> world \<Rightarrow> eventWithTime \<Rightarrow> bool option \<Rightarrow> unit outcome option"
  and takeFullSnapshot ::
      "nat \<Rightarrow> env \<Rightarrow> recordOptions \<Rightarrow> world \<Rightarrow> bool \<Rightarrow> unit outcome option"
where
  "wrappedEmit 0 en opts s e isCheckout = None"
| "wrappedEmit (Suc k) en opts s e isCheckout =
     (case (if resumes s e
            then forEach
                   (buffer_unfreeze
                      (\<lambda>m s'. case wrapEvent en (IncrementalSnapshotEvent Mutation m) s' of
                                 (e', s'') \<Rightarrow> wrappedEmit k en opts s'' e' None))
                   (indices s) s
            else Some (Returned () s)) of
        None \<Rightarrow> None
      | Some (Thrown err s1) \<Rightarrow> Some (Thrown err s1)
      | Some (Returned u s1) \<Rightarrow>
          (let s2 = onEmit opts e isCheckout s1 in
           if type_of (ev e) = FullSnapshot then
             Some (Returned () (s2\<lparr>lastFullSnapshotEvent := Some e, incrementalSnapshotCount := 0\<rparr>))
           else if type_of (ev e) = IncrementalSnapshot then
             (let s3 = s2\<lparr>incrementalSnapshotCount := incrementalSnapshotCount s2 + 1\<rparr> in
              case exceedTime opts e s3 of
                Inl err \<Rightarrow> Some (Thrown err s3)
              | Inr late \<Rightarrow>
                  if exceedCount opts s3 \<or> late then takeFullSnapshot k en opts s3 True
                  else Some (Returned () s3))
           else Some (Returned () s2)))"
| "takeFullSnapshot 0 en opts s isCheckout = None"
| "takeFullSnapshot (Suc k) en opts s isCheckout =
     (case wrapEvent en (MetaEvent (location_href en) (windowWidth en) (windowHeight en)) s of
        (m, s0) \<Rightarrow>
     (case wrappedEmit k en opts s0 m (Some isCheckout) of
        None \<Rightarrow> None
      | Some (Thrown err s1) \<Rightarrow> Some (Thrown err s1)
      | Some (Returned u s1) \<Rightarrow>
          (case call_snapshot en (lock_all s1) of
             ((None, idNodeMap), s2) \<Rightarrow>
               Some (Returned () (console_warn (WarnMessage ''Failed to snapshot the document'') s2))
           | ((Some node, idNodeMap), s2) \<Rightarrow>
               (case wrapEvent en
                       (FullSnapshotEvent node
                          (initialOffset (pageXOffset en) (fst (documentElement_scroll en))
                             (map_option fst (parentElement_scroll en)) (fst (body_scroll en)))
                          (initialOffset (pageYOffset en) (snd (documentElement_scroll en))
                             (map_option snd (parentElement_scroll en)) (snd (body_scroll en))))
                       (log_action (MirrorMapSet idNodeMap) (s2\<lparr>mirror_map := idNodeMap\<rparr>)) of
                  (f, s3) \<Rightarrow>
               (case wrappedEmit k en opts s3 f None of
                  None \<Rightarrow> None
                | Some (Thrown err s4) \<Rightarrow> Some (Thrown err s4)
                | Some (Returned u' s4) \<Rightarrow>
                    forEach
                      (buffer_unlock
                         (\<lambda>m s'. case wrapEvent en (IncrementalSnapshotEvent Mutation m) s' of
                                    (e', s'') \<Rightarrow> wrappedEmit k en opts s'' e' None))
                      (indices s4) s4)))))"

text \<open>The callback every observer set is given as \<open>mutationCb\<close> (lines 208 to 217).\<close>

definition mutationCb ::
  "nat \<Rightarrow> env \<Rightarrow> recordOptions \<Rightarrow> nat list \<Rightarrow> world \<Rightarrow> unit outcome option" where
  "mutationCb k en opts m s =
     (case wrapEvent en (IncrementalSnapshotEvent Mutation m) s of
        (e, s') \<Rightarrow> wrappedEmit k en opts s' e None)"

text \<open>
  The other observer callbacks (lines 218 to 317) differ in the source only:
  \<open>wrappedEmit(wrapEvent({type: IncrementalSnapshot, data: {source, ...}}))\<close>.
\<close>

definition observerCb ::
  "nat \<Rightarrow> env \<Rightarrow> recordOptions \<Rightarrow> IncrementalSource \<Rightarrow> nat list \<Rightarrow> world \<Rightarrow> unit outcome option" where
  "observerCb k en opts src d s =
     (case wrapEvent en (IncrementalSnapshotEvent src d) s of
        (e, s') \<Rightarrow> wrappedEmit k en opts s' e None)"

text \<open>
  A run of the observers: the detectors report incremental events one after the
  other, each through its callback; an exception ends the run. \<open>emitted\<close> lists the
  hand-overs of these events themselves, the first wrapped at tick \<open>t\<close>, and \<open>on_time\<close>
  says that for none of them \<open>exceedTime\<close> throws or holds against state \<open>s\<close>.
\<close>

fun observer_run ::
  "nat \<Rightarrow> env \<Rightarrow> recordOptions \<Rightarrow> (IncrementalSource \<times> nat list) list \<Rightarrow> world
     \<Rightarrow> unit outcome option" where
  "observer_run k en opts [] s = Some (Returned () s)"
| "observer_run k en opts (x # xs) s =
     (case observerCb k en opts (fst x) (snd x) s of
        None \<Rightarrow> None
      | Some (Thrown err s') \<Rightarrow> Some (Thrown err s')
      | Some (Returned u s') \<Rightarrow> observer_run k en opts xs s')"

fun emitted ::
  "env \<Rightarrow> recordOptions \<Rightarrow> nat \<Rightarrow> (IncrementalSource \<times> nat list) list \<Rightarrow> action list" where
  "emitted en opts t [] = []"
| "emitted en opts t (x # xs) =
     OnEmit (deliver opts \<lparr>ev = IncrementalSnapshotEvent (fst x) (snd x), timestamp = clock en t\<rparr>) None
       # emitted en opts (Suc t) xs"

fun on_time ::
  "env \<Rightarrow> recordOptions \<Rightarrow> world \<Rightarrow> nat \<Rightarrow> (IncrementalSource \<times> nat list) list \<Rightarrow> bool" where
  "on_time en opts s t [] = True"
| "on_time en opts s t (x # xs) =
     (exceedTime opts \<lparr>ev = IncrementalSnapshotEvent (fst x) (snd x), timestamp = clock en t\<rparr> s
        = Inr False \<and>
      on_time en opts s (Suc t) xs)"

text \<open>
  The two phases of \<open>wrappedEmit\<close> around the call of \<open>onEmit\<close>: the resume check
  (lines 162 to 173) and the bookkeeping with the cadence policy (lines 176 to 189).
\<close>

definition resume_on_activity ::
  "nat \<Rightarrow> env \<Rightarrow> recordOptions \<Rightarrow> world \<Rightarrow> eventWithTime \<Rightarrow> unit outcome option" where
  "resume_on_activity k en opts s e =
     (if resumes s e then forEach (buffer_unfreeze (mutationCb k en opts)) (indices s) s
      else Some (Returned () s))"

definition bookkeeping ::
  "nat \<Rightarrow> env \<Rightarrow> recordOptions \<Rightarrow> world \<Rightarrow> eventWithTime \<Rightarrow> unit outcome option" where
  "bookkeeping k en opts s2 e =
     (if type_of (ev e) = FullSnapshot then
        Some (Returned () (s2\<lparr>lastFullSnapshotEvent := Some e, incrementalSnapshotCount := 0\<rparr>))
      else if type_of (ev e) = IncrementalSnapshot then
        (let s3 = s2\<lparr>incrementalSnapshotCount := incrementalSnapshotCount s2 + 1\<rparr> in
         case exceedTime opts e s3 of
           Inl err \<Rightarrow> Some (Thrown err s3)
         | Inr late \<Rightarrow>
             if exceedCount opts s3 \<or> late then takeFullSnapshot k en opts s3 True
             else Some (Returned () s3))
      else Some (Returned () s2))"

text \<open>
  The phases of \<open>takeFullSnapshot\<close>: the two events it wraps, what follows the
  emission of \<open>Meta\<close> (lines 350 to 393), and what follows a serializer call that
  returned a node (lines 367 to 392).
\<close>

definition meta_event :: "env \<Rightarrow> world \<Rightarrow> eventWithTime \<times> world" where
  "meta_event en s =
     wrapEvent en (MetaEvent (location_href en) (windowWidth en) (windowHeight en)) s"

definition fullSnapshot_event :: "env \<Rightarrow> node \<Rightarrow> world \<Rightarrow> eventWithTime \<times> world" where
  "fullSnapshot_event en node s =
     wrapEvent en
       (FullSnapshotEvent node
          (initialOffset (pageXOffset en) (fst (documentElement_scroll en))
             (map_option fst (parentElement_scroll en)) (fst (body_scroll en)))
          (initialOffset (pageYOffset en) (snd (documentElement_scroll en))
             (map_option snd (parentElement_scroll en)) (snd (body_scroll en)))) s"

definition after_snapshot ::
  "nat \<Rightarrow> env \<Rightarrow> recordOptions \<Rightarrow> node \<Rightarrow> idNodeMap \<Rightarrow> world \<Rightarrow> unit outcome option" where
  "after_snapshot k en opts node idNodeMap s2 =
     (case fullSnapshot_event en node
             (log_action (MirrorMapSet idNodeMap) (s2\<lparr>mirror_map := idNodeMap\<rparr>)) of
        (f, s3) \<Rightarrow>
          (case wrappedEmit k en opts s3 f None of
             None \<Rightarrow> None
           | Some (Thrown err s4) \<Rightarrow> Some (Thrown err s4)
           | Some (Returned u s4) \<Rightarrow>
               forEach (buffer_unlock (mutationCb k en opts)) (indices s4) s4))"

definition after_meta ::
  "nat \<Rightarrow> env \<Rightarrow> recordOptions \<Rightarrow> world \<Rightarrow> unit outcome option" where
  "after_meta k en opts s1 =
     (case call_snapshot en (lock_all s1) of
        ((None, idNodeMap), s2) \<Rightarrow>
          Some (Returned () (console_warn (WarnMessage ''Failed to snapshot the document'') s2))
      | ((Some node, idNodeMap), s2) \<Rightarrow> after_snapshot k en opts node idNodeMap s2)"

subsection \<open>The public operations\<close>

text \<open>\<open>freezePage\<close> (lines 464 to 466).\<close>

definition freezePage :: "world \<Rightarrow> world" where
  "freezePage s = forEach_pure buffer_freeze (indices s) s"

text \<open>
  Modelled from the spec: \<open>on\<close> (\<open>utils.ts\<close>) is not among the sources. It registers
  an event listener and returns the function that removes it again. \<open>attached\<close>
  lists the detectors in place; a handler is named by the detector it detaches.
\<close>

definition on_listener :: "string \<Rightarrow> world \<Rightarrow> detector \<times> world" where
  "on_listener name s = (Listener name, s\<lparr>attached := attached s @ [Listener name]\<rparr>)"

text \<open>
  Modelled from the spec: \<open>initObservers\<close> (\<open>record/observer.ts\<close>), which \<open>observe\<close>
  (lines 205 to 334) calls, is not among the sources. By the spec each observed
  document gets a set of change detectors and a mutation buffer of its own, in the
  default state active, and the call returns the function that detaches the set.
\<close>

definition observe :: "nat \<Rightarrow> world \<Rightarrow> detector \<times> world" where
  "observe doc s =
     (Observers doc,
      s\<lparr>attached := attached s @ [Observers doc],
        mutationBuffers := mutationBuffers s @ [\<lparr>frozen = False, locked = False, pending = []\<rparr>]\<rparr>)"

text \<open>
  Modelled from the spec: a handler, the "detach function" a change detector
  returns, removes its detector, and does nothing when the detector is gone.
\<close>

definition call_handler :: "detector \<Rightarrow> world \<Rightarrow> world" where
  "call_handler d s = s\<lparr>attached := removeAll d (attached s)\<rparr>"

text \<open>\<open>handlers.push(h)\<close>\<close>

definition handlers_push :: "detector \<times> world \<Rightarrow> world" where
  "handlers_push hs = (case hs of (h, s) \<Rightarrow> s\<lparr>handlers := handlers s @ [h]\<rparr>)"

text \<open>The function \<open>record\<close> returns (lines 439 to 441): \<open>handlers.forEach((h) => h())\<close>.\<close>

definition disposer :: "world \<Rightarrow> world" where
  "disposer s = fold call_handler (handlers s) s"

datatype listenerHandler = Disposer

text \<open>
  \<open>Recorder.record\<close> (lines 395 to 446). \<open>init\<close> takes the first checkpoint and then
  observes the main document (document \<open>0\<close>). An exception of the body of \<open>record\<close>
  is caught, reported by \<open>console.warn\<close>, and the result is \<open>undefined\<close>. The
  listeners registered for \<open>DOMContentLoaded\<close>, for \<open>load\<close> and for the load of an
  embedded document run later, outside the \<open>try\<close>.
\<close>

definition init ::
  "nat \<Rightarrow> env \<Rightarrow> recordOptions \<Rightarrow> world \<Rightarrow> unit outcome option" where
  "init k en opts s =
     (case takeFullSnapshot k en opts s False of
        None \<Rightarrow> None
      | Some (Thrown err s') \<Rightarrow> Some (Thrown err s')
      | Some (Returned u s') \<Rightarrow> Some (Returned () (handlers_push (observe 0 s'))))"

definition Recorder_record ::
  "nat \<Rightarrow> env \<Rightarrow> recordOptions \<Rightarrow> world \<Rightarrow> listenerHandler option outcome option" where
  "Recorder_record k en opts s =
     (let s1 = handlers_push (on_listener ''DOMContentLoaded'' (s\<lparr>handlers := []\<rparr>)) in
      if document_readyState en = Interactive \<or> document_readyState en = Complete then
        (case init k en opts s1 of
           None \<Rightarrow> None
         | Some (Thrown err s2) \<Rightarrow> Some (Returned None (console_warn (WarnError err) s2))
         | Some (Returned u s2) \<Rightarrow> Some (Returned (Some Disposer) s2))
      else Some (Returned (Some Disposer) (handlers_push (on_listener ''load'' s1))))"

definition domContentLoaded_listener ::
  "nat \<Rightarrow> env \<Rightarrow> recordOptions \<Rightarrow> world \<Rightarrow> unit outcome option" where
  "domContentLoaded_listener k en opts s =
     (case wrapEvent en DomContentLoadedEvent s of
        (e, s') \<Rightarrow> wrappedEmit k en opts s' e None)"

definition load_listener ::
  "nat \<Rightarrow> env \<Rightarrow> recordOptions \<Rightarrow> world \<Rightarrow> unit outcome option" where
  "load_listener k en opts s =
     (case wrapEvent en LoadEvent s of
        (e, s') \<Rightarrow>
          (case wrappedEmit k en opts s' e None of
             None \<Rightarrow> None
           | Some (Thrown err s2) \<Rightarrow> Some (Thrown err s2)
           | Some (Returned u s2) \<Rightarrow> init k en opts s2))"

definition iframe_load_listener :: "nat \<Rightarrow> world \<Rightarrow> world" where
  "iframe_load_listener doc s = handlers_push (observe doc s)"

text \<open>
  \<open>new Recorder(emit, options)\<close>: the fields and closure variables of the new
  instance (lines 33, 159 and 160). No line of the class assigns \<open>recording\<close> again.

  The world holds the closure variables of one recorder, the one created last. In
  the code a buffer keeps the callback of the recorder that created it, with that
  recorder's own \<open>lastFullSnapshotEvent\<close> and counter; here every flush goes to the
  current recorder. The two agree on every world whose buffers were all created
  since the last call of \<open>record\<close>, which is the case in every session below; a
  second call of \<open>record\<close> over buffers of an earlier session that still withhold
  mutations is outside what the model follows.
\<close>

definition new_Recorder :: "world \<Rightarrow> world" where
  "new_Recorder s =
     s\<lparr>recorder := True, recording := False, lastFullSnapshotEvent := None,
       incrementalSnapshotCount := 0\<rparr>"

text \<open>The exported \<open>record\<close> (lines 471 to 484).\<close>

definition record_start ::
  "nat \<Rightarrow> env \<Rightarrow> recordOptions \<Rightarrow> world \<Rightarrow> listenerHandler option outcome option" where
  "record_start k en opts s =
     (if emit opts = None then Some (Thrown (Error ''emit function is required'') s)
      else Recorder_record k en opts (new_Recorder s))"

text \<open>\<open>Recorder.addCustomEvent\<close> (lines 448 to 462) and \<open>record.addCustomEvent\<close> (lines 486 to 491).\<close>

definition Recorder_addCustomEvent ::
  "nat \<Rightarrow> env \<Rightarrow> recordOptions \<Rightarrow> world \<Rightarrow> string \<Rightarrow> string \<Rightarrow> unit outcome option" where
  "Recorder_addCustomEvent k en opts s tag payload =
     (if \<not> recording s then
        Some (Thrown (Error ''please add custom event after start recording'') s)
      else (case wrapEvent en (CustomEvent tag payload) s of
              (e, s') \<Rightarrow> wrappedEmit k en opts s' e None))"

definition record_addCustomEvent ::
  "nat \<Rightarrow> env \<Rightarrow> recordOptions \<Rightarrow> world \<Rightarrow> string \<Rightarrow> string \<Rightarrow> unit outcome option" where
  "record_addCustomEvent k en opts s tag payload =
     (if \<not> recorder s then
        Some (Thrown (Error ''please add custom event after start recording'') s)
      else Recorder_addCustomEvent k en opts s tag payload)"

section \<open>Invariants of the emit pipeline\<close>

text \<open>The number of buffers that hold withheld mutations.\<close>

definition pending_buffers :: "world \<Rightarrow> nat" where
  "pending_buffers s = length (filter (\<lambda>b. pending b \<noteq> []) (mutationBuffers s))"

text \<open>
  What no step of \<open>wrappedEmit\<close> and \<open>takeFullSnapshot\<close> undoes: the buffers stay
  in place, no buffer gains withheld mutations or becomes paused, the trace only
  grows, a stored \<open>lastFullSnapshotEvent\<close> stays stored, and the fields of the
  session that only \<open>record\<close> writes are untouched.
\<close>

definition evolves :: "world \<Rightarrow> world \<Rightarrow> bool" where
  "evolves s s' \<longleftrightarrow>
     length (mutationBuffers s') = length (mutationBuffers s) \<and>
     pending_buffers s' \<le> pending_buffers s \<and>
     (\<exists>t. trace s' = trace s @ t) \<and>
     recording s' = recording s \<and> recorder s' = recorder s \<and>
     handlers s' = handlers s \<and> attached s' = attached s \<and>
     (lastFullSnapshotEvent s \<noteq> None \<longrightarrow> lastFullSnapshotEvent s' \<noteq> None) \<and>
     (\<forall>i < length (mutationBuffers s).
        frozen (mutationBuffers s' ! i) \<longrightarrow> frozen (mutationBuffers s ! i))"

text \<open>
  The states in which \<open>exceedTime\<close> cannot throw: no interval is configured (or it
  is zero), or a \<open>FullSnapshot\<close> event is stored.
\<close>

definition safe :: "recordOptions \<Rightarrow> world \<Rightarrow> bool" where
  "safe opts s \<longleftrightarrow>
     checkoutEveryNms opts = None \<or> checkoutEveryNms opts = Some 0 \<or>
     lastFullSnapshotEvent s \<noteq> None"

text \<open>The actions appended to the trace between two states.\<close>

definition actions_since :: "world \<Rightarrow> world \<Rightarrow> action list" where
  "actions_since s r = drop (length (trace s)) (trace r)"

section \<open>Example options, pages and sessions\<close>

definition opts_plain :: recordOptions where
  "opts_plain =
     \<lparr>emit = Some Consumer, checkoutEveryNms = None, checkoutEveryNth = None,
      maskAllInputs = None, maskInputOptions = None, packFn = None\<rparr>"

definition opts_maskAll :: recordOptions where
  "opts_maskAll =
     opts_plain\<lparr>maskAllInputs := Some True, maskInputOptions := Some (\<lambda>k. Some False)\<rparr>"

definition opts_maskText :: recordOptions where
  "opts_maskText =
     opts_plain\<lparr>maskAllInputs := Some False,
       maskInputOptions := Some (\<lambda>k. if k = kind_text then Some True else None)\<rparr>"

definition page_ok :: env where
  "page_ok =
     \<lparr>clock = (\<lambda>n. 1000 * int n), snapshot = (\<lambda>n. (Some 7, 42)),
      location_href = ''https://example.org/'', windowWidth = 800, windowHeight = 600,
      pageXOffset = Some 0, pageYOffset = Some 0, documentElement_scroll = (0, 0),
      parentElement_scroll = None, body_scroll = (0, 0), document_readyState = Complete\<rparr>"

definition page_failing :: env where
  "page_failing = page_ok\<lparr>snapshot := (\<lambda>n. (None, 0))\<rparr>"

definition world0 :: world where
  "world0 =
     \<lparr>mutationBuffers = [], mirror_map = 0, lastFullSnapshotEvent = None,
      incrementalSnapshotCount = 0, recorder = False, recording = False, handlers = [],
      attached = [], trace = [], ticks = 0, snapshots = 0\<rparr>"

definition opts_ms :: recordOptions where
  "opts_ms = opts_plain\<lparr>checkoutEveryNms := Some 1000\<rparr>"

definition opts_nth :: "int \<Rightarrow> recordOptions" where
  "opts_nth n = opts_plain\<lparr>checkoutEveryNth := Some n\<rparr>"

definition session_started :: world where
  "session_started =
     \<lparr>mutationBuffers = [\<lparr>frozen = False, locked = False, pending = []\<rparr>],
      mirror_map = 42,
      lastFullSnapshotEvent = Some \<lparr>ev = FullSnapshotEvent 7 0 0, timestamp = 1000\<rparr>,
      incrementalSnapshotCount = 0, recorder = True, recording = False,
      handlers = [Listener ''DOMContentLoaded'', Observers 0],
      attached = [Listener ''DOMContentLoaded'', Observers 0],
      trace =
        [OnEmit (Plain \<lparr>ev = MetaEvent ''https://example.org/'' 800 600, timestamp = 0\<rparr>) (Some False),
         SnapshotCall, MirrorMapSet 42,
         OnEmit (Plain \<lparr>ev = FullSnapshotEvent 7 0 0, timestamp = 1000\<rparr>) None],
      ticks = 2, snapshots = 1\<rparr>"

definition session_unsnapped :: world where
  "session_unsnapped =
     \<lparr>mutationBuffers = [\<lparr>frozen = False, locked = False, pending = []\<rparr>],
      mirror_map = 0, lastFullSnapshotEvent = None,
      incrementalSnapshotCount = 0, recorder = True, recording = False,
      handlers = [Listener ''DOMContentLoaded'', Observers 0],
      attached = [Listener ''DOMContentLoaded'', Observers 0],
      trace =
        [OnEmit (Plain \<lparr>ev = MetaEvent ''https://example.org/'' 800 600, timestamp = 0\<rparr>) (Some False),
         SnapshotCall, ConsoleWarn (WarnMessage ''Failed to snapshot the document'')],
      ticks = 1, snapshots = 1\<rparr>"

definition two_documents :: world where
  "two_documents =
     session_started\<lparr>mutationBuffers :=
       [\<lparr>frozen = False, locked = False, pending = []\<rparr>,
        \<lparr>frozen = False, locked = False, pending = []\<rparr>]\<rparr>"

definition two_documents_stuck :: world where
  "two_documents_stuck =
     two_documents\<lparr>mutationBuffers :=
         [\<lparr>frozen = False, locked = True, pending = []\<rparr>,
          \<lparr>frozen = False, locked = True, pending = []\<rparr>],
       trace := trace two_documents @
         [OnEmit (Plain \<lparr>ev = MetaEvent ''https://example.org/'' 800 600, timestamp = 2000\<rparr>)
            (Some True),
          BufLock 0, BufLock 1, SnapshotCall,
          ConsoleWarn (WarnMessage ''Failed to snapshot the document'')],
       ticks := 3, snapshots := 2\<rparr>"

definition click_at :: "int \<Rightarrow> eventWithTime" where
  "click_at t = \<lparr>ev = IncrementalSnapshotEvent MouseInteraction [1], timestamp = t\<rparr>"

definition after_first_click :: world where
  "after_first_click =
     session_started\<lparr>mutationBuffers := [\<lparr>frozen = False, locked = True, pending = []\<rparr>],
       incrementalSnapshotCount := 1,
       trace := trace session_started @
         [OnEmit (Plain (click_at 3000)) None,
          OnEmit (Plain \<lparr>ev = MetaEvent ''https://example.org/'' 800 600, timestamp = 2000\<rparr>)
            (Some True),
          BufLock 0, SnapshotCall,
          ConsoleWarn (WarnMessage ''Failed to snapshot the document'')],
       ticks := 3, snapshots := 2\<rparr>"

definition after_second_click :: world where
  "after_second_click =
     after_first_click\<lparr>incrementalSnapshotCount := 2,
       trace := trace after_first_click @
         [OnEmit (Plain (click_at 4000)) None,
          OnEmit (Plain \<lparr>ev = MetaEvent ''https://example.org/'' 800 600, timestamp = 3000\<rparr>)
            (Some True),
          BufLock 0, SnapshotCall,
          ConsoleWarn (WarnMessage ''Failed to snapshot the document'')],
       ticks := 4, snapshots := 3\<rparr>"

definition meta_at :: "int \<Rightarrow> eventWithTime" where
  "meta_at t = \<lparr>ev = MetaEvent ''https://example.org/'' 800 600, timestamp = t\<rparr>"

definition two_documents_checkpointed :: world where
  "two_documents_checkpointed =
     two_documents\<lparr>lastFullSnapshotEvent := Some \<lparr>ev = FullSnapshotEvent 7 0 0, timestamp = 3000\<rparr>,
       trace := trace two_documents @
         [OnEmit (Plain (meta_at 2000)) (Some True), BufLock 0, BufLock 1, SnapshotCall,
          MirrorMapSet 42, OnEmit (Plain \<lparr>ev = FullSnapshotEvent 7 0 0, timestamp = 3000\<rparr>) None,
          BufUnlock 0, BufUnlock 1],
       ticks := 4, snapshots := 2\<rparr>"

definition mutation_event :: "nat list \<Rightarrow> int \<Rightarrow> eventWithTime" where
  "mutation_event m t = \<lparr>ev = IncrementalSnapshotEvent Mutation m, timestamp = t\<rparr>"

definition fullSnapshot_at :: "int \<Rightarrow> eventWithTime" where
  "fullSnapshot_at t = \<lparr>ev = FullSnapshotEvent 7 0 0, timestamp = t\<rparr>"

text \<open>
  A session with an embedded document (document \<open>1\<close>) after \<open>freezePage\<close>, and the
  same after each document's detector has reported one mutation.
\<close>

definition frozen_session :: world where
  "frozen_session =
     session_started\<lparr>mutationBuffers :=
         [\<lparr>frozen = True, locked = False, pending = []\<rparr>,
          \<lparr>frozen = True, locked = False, pending = []\<rparr>],
       handlers := [Listener ''DOMContentLoaded'', Observers 0, Observers 1],
       attached := [Listener ''DOMContentLoaded'', Observers 0, Observers 1],
       trace := trace session_started @ [BufFreeze 0, BufFreeze 1]\<rparr>"

definition paused_session :: world where
  "paused_session =
     frozen_session\<lparr>mutationBuffers :=
       [\<lparr>frozen = True, locked = False, pending = [5]\<rparr>,
        \<lparr>frozen = True, locked = False, pending = [6]\<rparr>]\<rparr>"

text \<open>
  What a click does to \<open>paused_session\<close>: with \<open>checkoutEveryNth = 1\<close> the state in
  which the first checkpoint's \<open>Meta\<close> event is emitted and the state when the click's
  callback has returned; without a cadence the state after the resume loop.
\<close>

definition mid_resume :: world where
  "mid_resume =
     paused_session\<lparr>mutationBuffers :=
         [\<lparr>frozen = False, locked = False, pending = []\<rparr>,
          \<lparr>frozen = True, locked = False, pending = [6]\<rparr>],
       incrementalSnapshotCount := 1,
       trace := trace paused_session @ [BufUnfreeze 0, OnEmit (Plain (mutation_event [5] 3000)) None],
       ticks := 5\<rparr>"

definition resumed_by_click :: world where
  "resumed_by_click =
     paused_session\<lparr>mutationBuffers :=
         [\<lparr>frozen = False, locked = False, pending = []\<rparr>,
          \<lparr>frozen = False, locked = False, pending = []\<rparr>],
       lastFullSnapshotEvent := Some (fullSnapshot_at 10000),
       incrementalSnapshotCount := 0,
       trace := trace paused_session @
         [BufUnfreeze 0,
          OnEmit (Plain (mutation_event [5] 3000)) None,
          OnEmit (Plain (meta_at 4000)) (Some True),
          BufLock 0, BufLock 1, SnapshotCall, MirrorMapSet 42,
          OnEmit (Plain (fullSnapshot_at 5000)) None,
          BufUnlock 0, BufUnlock 1,
          BufUnfreeze 1,
          OnEmit (Plain (mutation_event [6] 6000)) None,
          OnEmit (Plain (meta_at 7000)) (Some True),
          BufLock 0, BufLock 1, SnapshotCall, MirrorMapSet 42,
          OnEmit (Plain (fullSnapshot_at 8000)) None,
          BufUnlock 0, BufUnlock 1,
          OnEmit (Plain (click_at 2000)) None,
          OnEmit (Plain (meta_at 9000)) (Some True),
          BufLock 0, BufLock 1, SnapshotCall, MirrorMapSet 42,
          OnEmit (Plain (fullSnapshot_at 10000)) None,
          BufUnlock 0, BufUnlock 1],
       ticks := 11, snapshots := 4\<rparr>"

definition resumed_session :: world where
  "resumed_session =
     paused_session\<lparr>mutationBuffers :=
         [\<lparr>frozen = False, locked = False, pending = []\<rparr>,
          \<lparr>frozen = False, locked = False, pending = []\<rparr>],
       incrementalSnapshotCount := 2,
       trace := trace paused_session @
         [BufUnfreeze 0, OnEmit (Plain (mutation_event [5] 3000)) None,
          BufUnfreeze 1, OnEmit (Plain (mutation_event [6] 4000)) None],
       ticks := 5\<rparr>"

text \<open>
  A session paused by \<open>freezePage\<close> whose main document then reported a mutation,
  and in which an embedded document was loaded afterwards: its buffer is active.
\<close>

definition first_paused :: world where
  "first_paused =
     session_started\<lparr>mutationBuffers :=
         [\<lparr>frozen = True, locked = False, pending = [5]\<rparr>,
          \<lparr>frozen = False, locked = False, pending = []\<rparr>],
       handlers := [Listener ''DOMContentLoaded'', Observers 0, Observers 1],
       attached := [Listener ''DOMContentLoaded'', Observers 0, Observers 1],
       trace := trace session_started @ [BufFreeze 0]\<rparr>"

text \<open>Both cadences configured, and a session after two incremental events.\<close>

definition opts_both :: recordOptions where
  "opts_both = opts_ms\<lparr>checkoutEveryNth := Some 1\<rparr>"

definition after_two_events :: world where
  "after_two_events =
     session_started\<lparr>lastFullSnapshotEvent := Some (fullSnapshot_at 5000),
       trace := trace session_started @
         [OnEmit (Plain \<lparr>ev = IncrementalSnapshotEvent MouseInteraction [1], timestamp = 2000\<rparr>) None,
          OnEmit (Plain \<lparr>ev = IncrementalSnapshotEvent Scroll [2], timestamp = 3000\<rparr>) None,
          OnEmit (Plain (meta_at 4000)) (Some True),
          BufLock 0, SnapshotCall, MirrorMapSet 42,
          OnEmit (Plain (fullSnapshot_at 5000)) None,
          BufUnlock 0],
       ticks := 6, snapshots := 2\<rparr>"

section \<open>Basic facts\<close>

text \<open>
  \<open>wrappedEmit\<close> is the resume check, the call of \<open>onEmit\<close>, and the bookkeeping;
  \<open>takeFullSnapshot\<close> is the emission of \<open>Meta\<close> followed by \<open>after_meta\<close>.
\<close>

lemma wrappedEmit_Suc:
  "wrappedEmit (Suc k) en opts s e c =
     (case resume_on_activity k en opts s e of
        None \<Rightarrow> None
      | Some (Thrown err s1) \<Rightarrow> Some (Thrown err s1)
      | Some (Returned u s1) \<Rightarrow> bookkeeping k en opts (onEmit opts e c s1) e)"
  unfolding resume_on_activity_def bookkeeping_def mutationCb_def [abs_def]
  by (simp add: Let_def split: option.split outcome.split)

lemma takeFullSnapshot_unfold:
  "takeFullSnapshot (Suc k) en opts s c =
     (case wrapEvent en (MetaEvent (location_href en) (windowWidth en) (windowHeight en)) s of
        (m, s0) \<Rightarrow>
     (case wrappedEmit k en opts s0 m (Some c) of
        None \<Rightarrow> None
      | Some (Thrown err s1) \<Rightarrow> Some (Thrown err s1)
      | Some (Returned u s1) \<Rightarrow>
          (case call_snapshot en (lock_all s1) of
             ((None, idNodeMap), s2) \<Rightarrow>
               Some (Returned () (console_warn (WarnMessage ''Failed to snapshot the document'') s2))
           | ((Some node, idNodeMap), s2) \<Rightarrow>
               (case wrapEvent en
                       (FullSnapshotEvent node
                          (initialOffset (pageXOffset en) (fst (documentElement_scroll en))
                             (map_option fst (parentElement_scroll en)) (fst (body_scroll en)))
                          (initialOffset (pageYOffset en) (snd (documentElement_scroll en))
                             (map_option snd (parentElement_scroll en)) (snd (body_scroll en))))
                       (log_action (MirrorMapSet idNodeMap) (s2\<lparr>mirror_map := idNodeMap\<rparr>)) of
                  (f, s3) \<Rightarrow>
               (case wrappedEmit k en opts s3 f None of
                  None \<Rightarrow> None
                | Some (Thrown err s4) \<Rightarrow> Some (Thrown err s4)
                | Some (Returned u' s4) \<Rightarrow>
                    forEach (buffer_unlock (mutationCb k en opts)) (indices s4) s4)))))"
  unfolding mutationCb_def [abs_def]
  by simp

lemma takeFullSnapshot_Suc:
  "takeFullSnapshot (Suc k) en opts s c =
     (case meta_event en s of
        (m, s0) \<Rightarrow>
          (case wrappedEmit k en opts s0 m (Some c) of
             None \<Rightarrow> None
           | Some (Thrown err s1) \<Rightarrow> Some (Thrown err s1)
           | Some (Returned u s1) \<Rightarrow> after_meta k en opts s1))"
  unfolding takeFullSnapshot_unfold meta_event_def after_meta_def after_snapshot_def
    fullSnapshot_event_def
  by (simp split: prod.split option.split outcome.split)

declare wrappedEmit.simps(2) [simp del] takeFullSnapshot.simps(2) [simp del]

lemma evolves_refl: "evolves s s"
  by (simp add: evolves_def)

lemma evolves_trans: "evolves a b \<Longrightarrow> evolves b c \<Longrightarrow> evolves a c"
  unfolding evolves_def by auto

lemma filter_update_same:
  "Q y = Q (xs ! i) \<Longrightarrow> length (filter Q (xs[i := y])) = length (filter Q xs)"
proof (induction xs arbitrary: i)
  case Nil
  then show ?case by simp
next
  case (Cons x xs)
  then show ?case by (cases i) auto
qed

lemma filter_update_drop:
  "i < length xs \<Longrightarrow> Q (xs ! i) \<Longrightarrow> \<not> Q y \<Longrightarrow>
     Suc (length (filter Q (xs[i := y]))) = length (filter Q xs)"
proof (induction xs arbitrary: i)
  case Nil
  then show ?case by simp
next
  case (Cons x xs)
  then show ?case by (cases i) auto
qed

lemma evolves_log_action: "evolves s (log_action a s)"
  by (simp add: evolves_def log_action_def pending_buffers_def)

lemma evolves_wrapEvent: "wrapEvent en e s = (e', s') \<Longrightarrow> evolves s s'"
  by (auto simp: evolves_def wrapEvent_def pending_buffers_def)

lemma nth_update_cases:
  "ia < length xs \<Longrightarrow> Q (xs[i := b] ! ia) \<Longrightarrow> (ia = i \<and> Q b) \<or> (ia \<noteq> i \<and> Q (xs ! ia))"
  by (cases "ia = i") auto

lemma evolves_flags:
  assumes "pending b = pending (mutationBuffers s ! i)"
    and "frozen b \<longrightarrow> frozen (mutationBuffers s ! i)"
  shows "evolves s (set_buffer i b s)"
  using assms
  by (auto simp: evolves_def set_buffer_def pending_buffers_def filter_update_same
           dest: nth_update_cases [where Q = frozen])

lemma evolves_clear:
  assumes "i < length (mutationBuffers s)"
  shows "evolves s (set_buffer i ((mutationBuffers s ! i)\<lparr>pending := []\<rparr>) s)"
proof (cases "pending (mutationBuffers s ! i) = []")
  case True
  then show ?thesis
    by (auto simp: evolves_def set_buffer_def pending_buffers_def filter_update_same
             dest: nth_update_cases [where Q = frozen])
next
  case False
  with assms
  have "Suc (pending_buffers (set_buffer i ((mutationBuffers s ! i)\<lparr>pending := []\<rparr>) s))
          = pending_buffers s"
    unfolding pending_buffers_def set_buffer_def
    by (simp add: filter_update_drop)
  then show ?thesis
    by (auto simp: evolves_def set_buffer_def dest: nth_update_cases [where Q = frozen])
qed

lemma evolves_fields:
  "evolves s (s\<lparr>lastFullSnapshotEvent := Some e, incrementalSnapshotCount := n\<rparr>)"
  "evolves s (s\<lparr>incrementalSnapshotCount := n\<rparr>)"
  "evolves s (s\<lparr>snapshots := j\<rparr>)"
  "evolves s (s\<lparr>mirror_map := m\<rparr>)"
  by (simp_all add: evolves_def pending_buffers_def)

lemma evolves_onEmit: "evolves s (onEmit opts e c s)"
  by (simp add: onEmit_def evolves_log_action)

lemma evolves_console_warn: "evolves s (console_warn w s)"
  by (simp add: console_warn_def evolves_log_action)

lemma evolves_buffer_lock: "evolves s (buffer_lock i s)"
  unfolding buffer_lock_def
  by (rule evolves_trans [OF evolves_flags evolves_log_action]) simp_all

lemma forEach_pure_evolves:
  assumes "\<And>i s. evolves s (f i s)"
  shows "evolves s (forEach_pure f is s)"
proof (induction "is" arbitrary: s)
  case Nil
  then show ?case by (simp add: evolves_refl)
next
  case (Cons i "is")
  show ?case
    using evolves_trans [OF assms Cons.IH] Cons.IH by simp
qed

lemma evolves_lock_all: "evolves s (lock_all s)"
  unfolding lock_all_def by (rule forEach_pure_evolves) (rule evolves_buffer_lock)

lemma evolves_call_snapshot: "call_snapshot en s = (r, s') \<Longrightarrow> evolves s s'"
  unfolding call_snapshot_def
  by (auto intro: evolves_trans [OF evolves_fields(3) evolves_log_action])

lemma forEach_evolves:
  assumes f: "\<forall>i s out. f i s = Some out \<longrightarrow> i < length (mutationBuffers s) \<longrightarrow> evolves s (world_of out)"
  shows "forEach f is s = Some out \<Longrightarrow> evolves s (world_of out)"
proof (induction "is" arbitrary: s)
  case Nil
  then show ?case by (auto simp: evolves_refl)
next
  case (Cons i "is")
  show ?case
  proof (cases "i < length (mutationBuffers s)")
    case False
    with Cons show ?thesis by simp
  next
    case True
    show ?thesis
    proof (cases "f i s")
      case None
      with True Cons.prems show ?thesis by simp
    next
      case (Some r)
      from f Some True have step: "evolves s (world_of r)" by blast
      show ?thesis
      proof (cases r)
        case (Thrown err s')
        with Some True Cons.prems step show ?thesis by auto
      next
        case (Returned u s')
        with Some True Cons.prems have "forEach f is s' = Some out" by simp
        from Cons.IH [OF this] step Returned show ?thesis
          by (auto intro: evolves_trans)
      qed
    qed
  qed
qed

lemma buffer_emit_evolves:
  assumes cb: "\<forall>m s out. cb m s = Some out \<longrightarrow> evolves s (world_of out)"
    and i: "i < length (mutationBuffers s)"
    and out: "buffer_emit cb i s = Some out"
  shows "evolves s (world_of out)"
proof (cases "frozen (mutationBuffers s ! i) \<or> locked (mutationBuffers s ! i)
              \<or> pending (mutationBuffers s ! i) = []")
  case True
  with out show ?thesis
    by (auto simp: buffer_emit_def Let_def evolves_refl split: if_splits)
next
  case False
  with out
  have "cb (pending (mutationBuffers s ! i))
          (set_buffer i ((mutationBuffers s ! i)\<lparr>pending := []\<rparr>) s) = Some out"
    by (simp add: buffer_emit_def Let_def)
  with cb have "evolves (set_buffer i ((mutationBuffers s ! i)\<lparr>pending := []\<rparr>) s) (world_of out)"
    by blast
  from evolves_trans [OF evolves_clear [OF i] this] show ?thesis .
qed

lemma length_set_buffer [simp]:
  "length (mutationBuffers (set_buffer i b s)) = length (mutationBuffers s)"
  by (simp add: set_buffer_def)

lemma length_log_action [simp]:
  "length (mutationBuffers (log_action a s)) = length (mutationBuffers s)"
  by (simp add: log_action_def)

lemma buffer_unfreeze_evolves:
  assumes cb: "\<forall>m s out. cb m s = Some out \<longrightarrow> evolves s (world_of out)"
    and i: "i < length (mutationBuffers s)"
    and out: "buffer_unfreeze cb i s = Some out"
  shows "evolves s (world_of out)"
proof -
  let ?s1 = "log_action (BufUnfreeze i) (set_buffer i ((mutationBuffers s ! i)\<lparr>frozen := False\<rparr>) s)"
  have a: "evolves s ?s1"
    by (rule evolves_trans [OF evolves_flags evolves_log_action]) simp_all
  have "i < length (mutationBuffers ?s1)" using i by simp
  from buffer_emit_evolves [OF cb this] out have "evolves ?s1 (world_of out)"
    by (simp add: buffer_unfreeze_def)
  with a show ?thesis by (rule evolves_trans)
qed

lemma buffer_unlock_evolves:
  assumes cb: "\<forall>m s out. cb m s = Some out \<longrightarrow> evolves s (world_of out)"
    and i: "i < length (mutationBuffers s)"
    and out: "buffer_unlock cb i s = Some out"
  shows "evolves s (world_of out)"
proof -
  let ?s1 = "log_action (BufUnlock i) (set_buffer i ((mutationBuffers s ! i)\<lparr>locked := False\<rparr>) s)"
  have a: "evolves s ?s1"
    by (rule evolves_trans [OF evolves_flags evolves_log_action]) simp_all
  have "i < length (mutationBuffers ?s1)" using i by simp
  from buffer_emit_evolves [OF cb this] out have "evolves ?s1 (world_of out)"
    by (simp add: buffer_unlock_def)
  with a show ?thesis by (rule evolves_trans)
qed

lemma mutationCb_evolves:
  assumes "\<forall>s e c out. wrappedEmit k en opts s e c = Some out \<longrightarrow> evolves s (world_of out)"
  shows "\<forall>m s out. mutationCb k en opts m s = Some out \<longrightarrow> evolves s (world_of out)"
  using assms
  by (auto simp: mutationCb_def split: prod.splits intro: evolves_trans [OF evolves_wrapEvent])

lemma resume_evolves:
  assumes "\<forall>s e c out. wrappedEmit k en opts s e c = Some out \<longrightarrow> evolves s (world_of out)"
    and "resume_on_activity k en opts s e = Some out"
  shows "evolves s (world_of out)"
proof (cases "resumes s e")
  case False
  with assms(2) show ?thesis by (auto simp: resume_on_activity_def evolves_refl)
next
  case True
  with assms(2)
  have "forEach (buffer_unfreeze (mutationCb k en opts)) (indices s) s = Some out"
    by (simp add: resume_on_activity_def)
  then show ?thesis
    using buffer_unfreeze_evolves [OF mutationCb_evolves [OF assms(1)]]
    by (intro forEach_evolves [where f = "buffer_unfreeze (mutationCb k en opts)"]) blast+
qed


lemma bookkeeping_evolves:
  assumes "\<forall>s c out. takeFullSnapshot k en opts s c = Some out \<longrightarrow> evolves s (world_of out)"
    and "bookkeeping k en opts s e = Some out"
  shows "evolves s (world_of out)"
proof -
  let ?s3 = "s\<lparr>incrementalSnapshotCount := incrementalSnapshotCount s + 1\<rparr>"
  have s3: "evolves s ?s3" by (rule evolves_fields)
  consider (full) "type_of (ev e) = FullSnapshot"
    | (incr) "type_of (ev e) = IncrementalSnapshot"
    | (other) "type_of (ev e) \<noteq> FullSnapshot" "type_of (ev e) \<noteq> IncrementalSnapshot"
    by blast
  then show ?thesis
  proof cases
    case full
    with assms(2) show ?thesis by (auto simp: bookkeeping_def evolves_fields)
  next
    case other
    with assms(2) show ?thesis by (auto simp: bookkeeping_def evolves_refl)
  next
    case incr
    show ?thesis
    proof (cases "exceedTime opts e ?s3")
      case (Inl err)
      with incr assms(2) s3 show ?thesis by (auto simp: bookkeeping_def Let_def)
    next
      case (Inr late)
      show ?thesis
      proof (cases "exceedCount opts ?s3 \<or> late")
        case True
        with incr Inr assms(2) have "takeFullSnapshot k en opts ?s3 True = Some out"
          by (auto simp: bookkeeping_def Let_def)
        with assms(1) have "evolves ?s3 (world_of out)" by blast
        from evolves_trans [OF s3 this] show ?thesis .
      next
        case False
        with incr Inr assms(2) s3 show ?thesis by (auto simp: bookkeeping_def Let_def)
      qed
    qed
  qed
qed

lemma wrappedEmit_step_evolves:
  assumes w: "\<forall>s e c out. wrappedEmit k en opts s e c = Some out \<longrightarrow> evolves s (world_of out)"
    and t: "\<forall>s c out. takeFullSnapshot k en opts s c = Some out \<longrightarrow> evolves s (world_of out)"
    and out: "wrappedEmit (Suc k) en opts s e c = Some out"
  shows "evolves s (world_of out)"
proof (cases "resume_on_activity k en opts s e")
  case None
  with out show ?thesis by (simp add: wrappedEmit_Suc)
next
  case (Some r)
  note r = resume_evolves [OF w Some]
  show ?thesis
  proof (cases r)
    case (Thrown err s1)
    with Some out r show ?thesis by (auto simp: wrappedEmit_Suc)
  next
    case (Returned u s1)
    with Some out have "bookkeeping k en opts (onEmit opts e c s1) e = Some out"
      by (simp add: wrappedEmit_Suc)
    from bookkeeping_evolves [OF t this] have "evolves (onEmit opts e c s1) (world_of out)" .
    with r Returned show ?thesis
      by (auto intro: evolves_trans [OF _ evolves_trans [OF evolves_onEmit]])
  qed
qed

lemma unlock_loop_evolves:
  assumes w: "\<forall>s e c out. wrappedEmit k en opts s e c = Some out \<longrightarrow> evolves s (world_of out)"
    and out: "forEach (buffer_unlock (mutationCb k en opts)) is s = Some out"
  shows "evolves s (world_of out)"
  using out buffer_unlock_evolves [OF mutationCb_evolves [OF w]]
  by (intro forEach_evolves [where f = "buffer_unlock (mutationCb k en opts)"]) blast+

lemma takeFullSnapshot_step_evolves:
  assumes w: "\<forall>s e c out. wrappedEmit k en opts s e c = Some out \<longrightarrow> evolves s (world_of out)"
    and out: "takeFullSnapshot (Suc k) en opts s c = Some out"
  shows "evolves s (world_of out)"
proof -
  obtain m s0 where m: "wrapEvent en (MetaEvent (location_href en) (windowWidth en) (windowHeight en)) s = (m, s0)"
    by (cases "wrapEvent en (MetaEvent (location_href en) (windowWidth en) (windowHeight en)) s")
  note e0 = evolves_wrapEvent [OF m]
  show ?thesis
  proof (cases "wrappedEmit k en opts s0 m (Some c)")
    case None
    with out m show ?thesis by (simp add: takeFullSnapshot_unfold)
  next
    case (Some r)
    from w Some have e1: "evolves s0 (world_of r)" by blast
    show ?thesis
    proof (cases r)
      case (Thrown err s1)
      with Some out m e0 e1 show ?thesis
        by (auto simp: takeFullSnapshot_unfold intro: evolves_trans)
    next
      case (Returned u s1)
      with e0 e1 have e1': "evolves s s1" by (auto intro: evolves_trans)
      obtain res idm s2 where sn: "call_snapshot en (lock_all s1) = ((res, idm), s2)"
        by (cases "call_snapshot en (lock_all s1)") auto
      have e2: "evolves s s2"
        by (rule evolves_trans [OF e1' evolves_trans [OF evolves_lock_all evolves_call_snapshot [OF sn]]])
      show ?thesis
      proof (cases res)
        case None
        with Some Returned out m sn
        have "out = Returned () (console_warn (WarnMessage ''Failed to snapshot the document'') s2)"
          by (simp add: takeFullSnapshot_unfold)
        with e2 show ?thesis by (auto intro: evolves_trans [OF _ evolves_console_warn])
      next
        case (Some node)
        let ?fe = "FullSnapshotEvent node
                          (initialOffset (pageXOffset en) (fst (documentElement_scroll en))
                             (map_option fst (parentElement_scroll en)) (fst (body_scroll en)))
                          (initialOffset (pageYOffset en) (snd (documentElement_scroll en))
                             (map_option snd (parentElement_scroll en)) (snd (body_scroll en)))"
        let ?s2' = "log_action (MirrorMapSet idm) (s2\<lparr>mirror_map := idm\<rparr>)"
        obtain f s3 where f: "wrapEvent en ?fe ?s2' = (f, s3)"
          by (cases "wrapEvent en ?fe ?s2'")
        have e3: "evolves s s3"
          by (rule evolves_trans [OF e2 evolves_trans [OF evolves_fields(4)
                evolves_trans [OF evolves_log_action evolves_wrapEvent [OF f]]]])
        show ?thesis
        proof (cases "wrappedEmit k en opts s3 f None")
          case None
          with \<open>wrappedEmit k en opts s0 m (Some c) = Some r\<close> Returned Some out m sn f
          show ?thesis by (simp add: takeFullSnapshot_unfold)
        next
          case (Some r4)
          from w Some have e4: "evolves s3 (world_of r4)" by blast
          show ?thesis
          proof (cases r4)
            case (Thrown err s4)
            with \<open>wrappedEmit k en opts s0 m (Some c) = Some r\<close> Returned
              \<open>res = Some node\<close> Some out m sn f
            have "out = Thrown err s4" by (simp add: takeFullSnapshot_unfold)
            with e3 e4 Thrown show ?thesis by (auto intro: evolves_trans)
          next
            case (Returned u4 s4)
            with \<open>wrappedEmit k en opts s0 m (Some c) = Some r\<close> \<open>r = Returned u s1\<close>
              \<open>res = Some node\<close> Some out m sn f
            have "forEach (buffer_unlock (mutationCb k en opts)) (indices s4) s4 = Some out"
              by (simp add: takeFullSnapshot_unfold)
            from unlock_loop_evolves [OF w this] e3 e4 Returned show ?thesis
              by (auto intro: evolves_trans)
          qed
        qed
      qed
    qed
  qed
qed

lemma evolves_both:
  "(\<forall>s e c out. wrappedEmit k en opts s e c = Some out \<longrightarrow> evolves s (world_of out)) \<and>
   (\<forall>s c out. takeFullSnapshot k en opts s c = Some out \<longrightarrow> evolves s (world_of out))"
proof (induction k)
  case 0
  show ?case by simp
next
  case (Suc k)
  then have w: "\<forall>s e c out. wrappedEmit k en opts s e c = Some out \<longrightarrow> evolves s (world_of out)"
    and t: "\<forall>s c out. takeFullSnapshot k en opts s c = Some out \<longrightarrow> evolves s (world_of out)"
    by blast+
  show ?case
    using wrappedEmit_step_evolves [OF w t] takeFullSnapshot_step_evolves [OF w] by blast
qed

lemma wrappedEmit_evolves:
  "wrappedEmit k en opts s e c = Some out \<Longrightarrow> evolves s (world_of out)"
  using evolves_both by blast

lemma takeFullSnapshot_evolves:
  "takeFullSnapshot k en opts s c = Some out \<Longrightarrow> evolves s (world_of out)"
  using evolves_both by blast

subsection \<open>Every call returns, given enough fuel\<close>

lemma forEach_total:
  assumes tot: "\<forall>i s. i < length (mutationBuffers s) \<longrightarrow> pending_buffers s \<le> p \<longrightarrow> f i s \<noteq> None"
    and ev: "\<forall>i s out. f i s = Some out \<longrightarrow> i < length (mutationBuffers s) \<longrightarrow> evolves s (world_of out)"
  shows "pending_buffers s \<le> p \<Longrightarrow> forEach f is s \<noteq> None"
proof (induction "is" arbitrary: s)
  case Nil
  then show ?case by simp
next
  case (Cons i "is")
  show ?case
  proof (cases "i < length (mutationBuffers s)")
    case False
    with Cons show ?thesis by simp
  next
    case True
    with tot Cons.prems obtain r where r: "f i s = Some r" by blast
    with ev True have "evolves s (world_of r)" by blast
    with Cons.prems have "pending_buffers (world_of r) \<le> p" by (simp add: evolves_def)
    from Cons.IH [OF this] r True show ?thesis by (cases r) auto
  qed
qed

lemma buffer_emit_total:
  assumes cb: "\<forall>m s. Suc (pending_buffers s) \<le> p \<longrightarrow> cb m s \<noteq> None"
    and i: "i < length (mutationBuffers s)" and p: "pending_buffers s \<le> p"
  shows "buffer_emit cb i s \<noteq> None"
proof (cases "frozen (mutationBuffers s ! i) \<or> locked (mutationBuffers s ! i)
              \<or> pending (mutationBuffers s ! i) = []")
  case True
  then show ?thesis by (auto simp: buffer_emit_def Let_def)
next
  case False
  with i have "Suc (pending_buffers (set_buffer i ((mutationBuffers s ! i)\<lparr>pending := []\<rparr>) s))
      = pending_buffers s"
    unfolding pending_buffers_def set_buffer_def by (simp add: filter_update_drop)
  with p cb have "cb (pending (mutationBuffers s ! i))
      (set_buffer i ((mutationBuffers s ! i)\<lparr>pending := []\<rparr>) s) \<noteq> None"
    by simp
  with False show ?thesis by (simp add: buffer_emit_def Let_def)
qed

lemma buffer_unfreeze_total:
  assumes cb: "\<forall>m s. Suc (pending_buffers s) \<le> p \<longrightarrow> cb m s \<noteq> None"
    and i: "i < length (mutationBuffers s)" and p: "pending_buffers s \<le> p"
  shows "buffer_unfreeze cb i s \<noteq> None"
proof -
  let ?s1 = "log_action (BufUnfreeze i) (set_buffer i ((mutationBuffers s ! i)\<lparr>frozen := False\<rparr>) s)"
  have "evolves s ?s1"
    by (rule evolves_trans [OF evolves_flags evolves_log_action]) simp_all
  with p have "pending_buffers ?s1 \<le> p" by (simp add: evolves_def)
  moreover have "i < length (mutationBuffers ?s1)" using i by simp
  ultimately show ?thesis
    unfolding buffer_unfreeze_def by (intro buffer_emit_total [OF cb])
qed

lemma buffer_unlock_total:
  assumes cb: "\<forall>m s. Suc (pending_buffers s) \<le> p \<longrightarrow> cb m s \<noteq> None"
    and i: "i < length (mutationBuffers s)" and p: "pending_buffers s \<le> p"
  shows "buffer_unlock cb i s \<noteq> None"
proof -
  let ?s1 = "log_action (BufUnlock i) (set_buffer i ((mutationBuffers s ! i)\<lparr>locked := False\<rparr>) s)"
  have "evolves s ?s1"
    by (rule evolves_trans [OF evolves_flags evolves_log_action]) simp_all
  with p have "pending_buffers ?s1 \<le> p" by (simp add: evolves_def)
  moreover have "i < length (mutationBuffers ?s1)" using i by simp
  ultimately show ?thesis
    unfolding buffer_unlock_def by (intro buffer_emit_total [OF cb])
qed

lemma mutationCb_evolves': 
  "\<forall>m s out. mutationCb k en opts m s = Some out \<longrightarrow> evolves s (world_of out)"
  by (rule mutationCb_evolves) (blast intro: wrappedEmit_evolves)

lemma resume_total:
  assumes cb: "\<forall>m s. Suc (pending_buffers s) \<le> p \<longrightarrow> mutationCb k en opts m s \<noteq> None"
    and p: "pending_buffers s \<le> p"
  shows "resume_on_activity k en opts s e \<noteq> None"
  unfolding resume_on_activity_def
  using forEach_total [where f = "buffer_unfreeze (mutationCb k en opts)" and p = p, OF _ _ p]
    buffer_unfreeze_total [OF cb] buffer_unfreeze_evolves [OF mutationCb_evolves']
  by (auto)

lemma unlock_total:
  assumes cb: "\<forall>m s. Suc (pending_buffers s) \<le> p \<longrightarrow> mutationCb k en opts m s \<noteq> None"
    and p: "pending_buffers s \<le> p"
  shows "forEach (buffer_unlock (mutationCb k en opts)) is s \<noteq> None"
  using forEach_total [where f = "buffer_unlock (mutationCb k en opts)" and p = p, OF _ _ p]
    buffer_unlock_total [OF cb] buffer_unlock_evolves [OF mutationCb_evolves']
  by (auto)


lemma bookkeeping_other:
  "type_of (ev e) \<noteq> IncrementalSnapshot \<Longrightarrow> bookkeeping k en opts s e \<noteq> None"
  by (simp add: bookkeeping_def)

lemma wrappedEmit_other_total:
  assumes cb: "\<forall>m s. Suc (pending_buffers s) \<le> p \<longrightarrow> mutationCb k en opts m s \<noteq> None"
    and p: "pending_buffers s \<le> p"
    and e: "type_of (ev e) \<noteq> IncrementalSnapshot"
  shows "wrappedEmit (Suc k) en opts s e c \<noteq> None"
  using resume_total [OF cb p, of e] bookkeeping_other [OF e]
  by (auto simp: wrappedEmit_Suc split: option.splits outcome.splits)

lemma evolves_pending: "evolves s s' \<Longrightarrow> pending_buffers s \<le> p \<Longrightarrow> pending_buffers s' \<le> p"
  by (simp add: evolves_def)

lemma evolves_meta_event: "meta_event en s = (m, s0) \<Longrightarrow> evolves s s0"
  unfolding meta_event_def by (rule evolves_wrapEvent)

lemma evolves_fullSnapshot_event: "fullSnapshot_event en node s = (f, s') \<Longrightarrow> evolves s s'"
  unfolding fullSnapshot_event_def by (rule evolves_wrapEvent)

lemma type_of_meta_event: "meta_event en s = (m, s0) \<Longrightarrow> type_of (ev m) = Meta"
  by (auto simp: meta_event_def wrapEvent_def)

lemma type_of_fullSnapshot_event:
  "fullSnapshot_event en node s = (f, s') \<Longrightarrow> type_of (ev f) = FullSnapshot"
  by (auto simp: fullSnapshot_event_def wrapEvent_def)

lemma after_snapshot_total:
  assumes cb: "\<forall>m s. Suc (pending_buffers s) \<le> p \<longrightarrow> mutationCb k en opts m s \<noteq> None"
    and v: "\<forall>s e c. pending_buffers s \<le> p \<longrightarrow> type_of (ev e) \<noteq> IncrementalSnapshot
              \<longrightarrow> wrappedEmit k en opts s e c \<noteq> None"
    and p: "pending_buffers s \<le> p"
  shows "after_snapshot k en opts node idm s \<noteq> None"
proof -
  let ?s' = "log_action (MirrorMapSet idm) (s\<lparr>mirror_map := idm\<rparr>)"
  obtain f s3 where f: "fullSnapshot_event en node ?s' = (f, s3)"
    by (cases "fullSnapshot_event en node ?s'")
  have "evolves s s3"
    by (rule evolves_trans [OF evolves_fields(4)
          evolves_trans [OF evolves_log_action evolves_fullSnapshot_event [OF f]]])
  then have p3: "pending_buffers s3 \<le> p" using p by (rule evolves_pending)
  have "type_of (ev f) \<noteq> IncrementalSnapshot"
    using type_of_fullSnapshot_event [OF f] by simp
  with v p3 obtain r where r: "wrappedEmit k en opts s3 f None = Some r"
    by blast
  from wrappedEmit_evolves [OF r] p3 have p4: "pending_buffers (world_of r) \<le> p"
    by (rule evolves_pending)
  show ?thesis
    using f r unlock_total [OF cb p4] by (cases r) (auto simp: after_snapshot_def)
qed

lemma after_meta_total:
  assumes cb: "\<forall>m s. Suc (pending_buffers s) \<le> p \<longrightarrow> mutationCb k en opts m s \<noteq> None"
    and v: "\<forall>s e c. pending_buffers s \<le> p \<longrightarrow> type_of (ev e) \<noteq> IncrementalSnapshot
              \<longrightarrow> wrappedEmit k en opts s e c \<noteq> None"
    and p: "pending_buffers s \<le> p"
  shows "after_meta k en opts s \<noteq> None"
proof -
  obtain res idm s2 where sn: "call_snapshot en (lock_all s) = ((res, idm), s2)"
    by (cases "call_snapshot en (lock_all s)") auto
  have "evolves s s2"
    by (rule evolves_trans [OF evolves_lock_all evolves_call_snapshot [OF sn]])
  then have "pending_buffers s2 \<le> p" using p by (rule evolves_pending)
  from after_snapshot_total [OF cb v this] sn show ?thesis
    by (cases res) (auto simp: after_meta_def)
qed

lemma takeFullSnapshot_total_step:
  assumes cb: "\<forall>m s. Suc (pending_buffers s) \<le> p \<longrightarrow> mutationCb k en opts m s \<noteq> None"
    and v: "\<forall>s e c. pending_buffers s \<le> p \<longrightarrow> type_of (ev e) \<noteq> IncrementalSnapshot
              \<longrightarrow> wrappedEmit k en opts s e c \<noteq> None"
    and p: "pending_buffers s \<le> p"
  shows "takeFullSnapshot (Suc k) en opts s c \<noteq> None"
proof -
  obtain m s0 where m: "meta_event en s = (m, s0)" by (cases "meta_event en s")
  from evolves_meta_event [OF m] p have p0: "pending_buffers s0 \<le> p" by (rule evolves_pending)
  have "type_of (ev m) \<noteq> IncrementalSnapshot"
    using type_of_meta_event [OF m] by simp
  with v p0 obtain r where r: "wrappedEmit k en opts s0 m (Some c) = Some r"
    by blast
  from wrappedEmit_evolves [OF r] p0 have "pending_buffers (world_of r) \<le> p"
    by (rule evolves_pending)
  from after_meta_total [OF cb v this] m r show ?thesis
    by (cases r) (auto simp: takeFullSnapshot_Suc)
qed

lemma bookkeeping_total:
  assumes t: "\<forall>s c. pending_buffers s \<le> p \<longrightarrow> takeFullSnapshot k en opts s c \<noteq> None"
    and p: "pending_buffers s \<le> p"
  shows "bookkeeping k en opts s e \<noteq> None"
proof -
  have "pending_buffers (s\<lparr>incrementalSnapshotCount := incrementalSnapshotCount s + 1\<rparr>) \<le> p"
    using p by (simp add: pending_buffers_def)
  with t show ?thesis
    by (auto simp: bookkeeping_def Let_def split: sum.splits)
qed

lemma wrappedEmit_total_step:
  assumes cb: "\<forall>m s. Suc (pending_buffers s) \<le> p \<longrightarrow> mutationCb k en opts m s \<noteq> None"
    and t: "\<forall>s c. pending_buffers s \<le> p \<longrightarrow> takeFullSnapshot k en opts s c \<noteq> None"
    and p: "pending_buffers s \<le> p"
  shows "wrappedEmit (Suc k) en opts s e c \<noteq> None"
proof -
  from resume_total [OF cb p] obtain r where r: "resume_on_activity k en opts s e = Some r"
    by blast
  have "evolves s (world_of r)"
    using r by (rule resume_evolves [rotated]) (blast intro: wrappedEmit_evolves)
  then have "evolves s (onEmit opts e c (world_of r))"
    by (rule evolves_trans [OF _ evolves_onEmit])
  then have "pending_buffers (onEmit opts e c (world_of r)) \<le> p" using p by (rule evolves_pending)
  from bookkeeping_total [OF t this] r show ?thesis
    by (cases r) (auto simp: wrappedEmit_Suc)
qed

lemma mutationCb_total:
  assumes "\<forall>s e c. pending_buffers s \<le> q \<longrightarrow> wrappedEmit k en opts s e c \<noteq> None"
  shows "\<forall>m s. pending_buffers s \<le> q \<longrightarrow> mutationCb k en opts m s \<noteq> None"
  using assms
  by (auto simp: mutationCb_def wrapEvent_def pending_buffers_def split: prod.splits)

lemma total_both:
  "(\<forall>s k e c. pending_buffers s \<le> p \<longrightarrow> 3 * p + 3 \<le> k \<longrightarrow> wrappedEmit k en opts s e c \<noteq> None) \<and>
   (\<forall>s k c. pending_buffers s \<le> p \<longrightarrow> 3 * p + 2 \<le> k \<longrightarrow> takeFullSnapshot k en opts s c \<noteq> None) \<and>
   (\<forall>s k e c. pending_buffers s \<le> p \<longrightarrow> 3 * p + 1 \<le> k \<longrightarrow> type_of (ev e) \<noteq> IncrementalSnapshot
        \<longrightarrow> wrappedEmit k en opts s e c \<noteq> None)"
proof (induction p)
  case 0
  have cb: "\<forall>m s. Suc (pending_buffers s) \<le> 0 \<longrightarrow> mutationCb k en opts m s \<noteq> None" for k
    by simp
  have v: "wrappedEmit k en opts s e c \<noteq> None"
    if "pending_buffers s \<le> 0" "1 \<le> k" "type_of (ev e) \<noteq> IncrementalSnapshot" for s k e c
  proof -
    from that(2) obtain k' where "k = Suc k'" by (cases k) auto
    with wrappedEmit_other_total [OF cb that(1) that(3)] show ?thesis by simp
  qed
  have t: "takeFullSnapshot k en opts s c \<noteq> None"
    if "pending_buffers s \<le> 0" "2 \<le> k" for s k c
  proof -
    from that(2) obtain k' where k: "k = Suc k'" "1 \<le> k'" by (cases k) auto
    with v have "\<forall>s e c. pending_buffers s \<le> 0 \<longrightarrow> type_of (ev e) \<noteq> IncrementalSnapshot
              \<longrightarrow> wrappedEmit k' en opts s e c \<noteq> None" by blast
    from takeFullSnapshot_total_step [OF cb this that(1)] k show ?thesis by simp
  qed
  have w: "wrappedEmit k en opts s e c \<noteq> None"
    if "pending_buffers s \<le> 0" "3 \<le> k" for s k e c
  proof -
    from that(2) obtain k' where k: "k = Suc k'" "2 \<le> k'" by (cases k) auto
    with t have "\<forall>s c. pending_buffers s \<le> 0 \<longrightarrow> takeFullSnapshot k' en opts s c \<noteq> None"
      by blast
    from wrappedEmit_total_step [OF cb this that(1)] k show ?thesis by simp
  qed
  from v t w show ?case by simp
next
  case (Suc p)
  have cb: "\<forall>m s. Suc (pending_buffers s) \<le> Suc p \<longrightarrow> mutationCb k en opts m s \<noteq> None"
    if "3 * p + 3 \<le> k" for k
  proof -
    from Suc that have "\<forall>s e c. pending_buffers s \<le> p \<longrightarrow> wrappedEmit k en opts s e c \<noteq> None"
      by blast
    from mutationCb_total [OF this] show ?thesis by simp
  qed
  have v: "wrappedEmit k en opts s e c \<noteq> None"
    if "pending_buffers s \<le> Suc p" "3 * Suc p + 1 \<le> k" "type_of (ev e) \<noteq> IncrementalSnapshot"
    for s k e c
  proof -
    from that(2) obtain k' where k: "k = Suc k'" "3 * p + 3 \<le> k'" by (cases k) auto
    from wrappedEmit_other_total [OF cb [OF k(2)] that(1) that(3)] k show ?thesis by simp
  qed
  have t: "takeFullSnapshot k en opts s c \<noteq> None"
    if "pending_buffers s \<le> Suc p" "3 * Suc p + 2 \<le> k" for s k c
  proof -
    from that(2) obtain k' where k: "k = Suc k'" "3 * Suc p + 1 \<le> k'" by (cases k) auto
    then have k3: "3 * p + 3 \<le> k'" by simp
    from v k have "\<forall>s e c. pending_buffers s \<le> Suc p \<longrightarrow> type_of (ev e) \<noteq> IncrementalSnapshot
              \<longrightarrow> wrappedEmit k' en opts s e c \<noteq> None" by blast
    from takeFullSnapshot_total_step [OF cb [OF k3] this that(1)] k show ?thesis by simp
  qed
  have w: "wrappedEmit k en opts s e c \<noteq> None"
    if "pending_buffers s \<le> Suc p" "3 * Suc p + 3 \<le> k" for s k e c
  proof -
    from that(2) obtain k' where k: "k = Suc k'" "3 * Suc p + 2 \<le> k'" by (cases k) auto
    then have k3: "3 * p + 3 \<le> k'" by simp
    from t k have "\<forall>s c. pending_buffers s \<le> Suc p \<longrightarrow> takeFullSnapshot k' en opts s c \<noteq> None"
      by blast
    from wrappedEmit_total_step [OF cb [OF k3] this that(1)] k show ?thesis by simp
  qed
  from v t w show ?case by blast
qed


lemma forEach_mono:
  assumes "\<forall>i s out. f i s = Some out \<longrightarrow> g i s = Some out"
  shows "forEach f is s = Some out \<Longrightarrow> forEach g is s = Some out"
proof (induction "is" arbitrary: s)
  case Nil
  then show ?case by simp
next
  case (Cons i "is")
  show ?case
  proof (cases "i < length (mutationBuffers s)")
    case False
    with Cons show ?thesis by simp
  next
    case True
    with Cons.prems obtain r where r: "f i s = Some r" by (cases "f i s") auto
    with assms have g: "g i s = Some r" by blast
    show ?thesis
    proof (cases r)
      case (Thrown err s')
      with r g True Cons.prems show ?thesis by auto
    next
      case (Returned u s')
      with r True Cons.prems have "forEach f is s' = Some out" by simp
      from Cons.IH [OF this] g True Returned show ?thesis by simp
    qed
  qed
qed

lemma buffer_emit_mono:
  assumes "\<forall>m s out. cb m s = Some out \<longrightarrow> cb' m s = Some out"
  shows "buffer_emit cb i s = Some out \<Longrightarrow> buffer_emit cb' i s = Some out"
  using assms by (auto simp: buffer_emit_def Let_def split: if_splits)

lemma buffer_unfreeze_mono:
  assumes "\<forall>m s out. cb m s = Some out \<longrightarrow> cb' m s = Some out"
  shows "\<forall>i s out. buffer_unfreeze cb i s = Some out \<longrightarrow> buffer_unfreeze cb' i s = Some out"
  unfolding buffer_unfreeze_def using buffer_emit_mono [OF assms] by blast

lemma buffer_unlock_mono:
  assumes "\<forall>m s out. cb m s = Some out \<longrightarrow> cb' m s = Some out"
  shows "\<forall>i s out. buffer_unlock cb i s = Some out \<longrightarrow> buffer_unlock cb' i s = Some out"
  unfolding buffer_unlock_def using buffer_emit_mono [OF assms] by blast

lemma mutationCb_mono:
  assumes "\<forall>s e c out. wrappedEmit k en opts s e c = Some out \<longrightarrow> wrappedEmit k' en opts s e c = Some out"
  shows "\<forall>m s out. mutationCb k en opts m s = Some out \<longrightarrow> mutationCb k' en opts m s = Some out"
  using assms by (auto simp: mutationCb_def split: prod.splits)

lemma resume_mono:
  assumes w: "\<forall>s e c out. wrappedEmit k en opts s e c = Some out \<longrightarrow> wrappedEmit k' en opts s e c = Some out"
    and r: "resume_on_activity k en opts s e = Some out"
  shows "resume_on_activity k' en opts s e = Some out"
  using r forEach_mono [OF buffer_unfreeze_mono [OF mutationCb_mono [OF w]]]
  by (auto simp: resume_on_activity_def split: if_splits)

lemma bookkeeping_mono:
  assumes t: "\<forall>s c out. takeFullSnapshot k en opts s c = Some out \<longrightarrow> takeFullSnapshot k' en opts s c = Some out"
    and r: "bookkeeping k en opts s e = Some out"
  shows "bookkeeping k' en opts s e = Some out"
  using r t by (auto simp: bookkeeping_def Let_def split: if_splits sum.splits)

lemma wrappedEmit_mono_step:
  assumes w: "\<forall>s e c out. wrappedEmit k en opts s e c = Some out \<longrightarrow> wrappedEmit k' en opts s e c = Some out"
    and t: "\<forall>s c out. takeFullSnapshot k en opts s c = Some out \<longrightarrow> takeFullSnapshot k' en opts s c = Some out"
    and r: "wrappedEmit (Suc k) en opts s e c = Some out"
  shows "wrappedEmit (Suc k') en opts s e c = Some out"
proof -
  from r obtain r1 where r1: "resume_on_activity k en opts s e = Some r1"
    by (cases "resume_on_activity k en opts s e") (auto simp: wrappedEmit_Suc)
  note r1' = resume_mono [OF w r1]
  show ?thesis
  proof (cases r1)
    case (Thrown err s1)
    with r r1 r1' show ?thesis by (auto simp: wrappedEmit_Suc)
  next
    case (Returned u s1)
    with r r1 have "bookkeeping k en opts (onEmit opts e c s1) e = Some out"
      by (simp add: wrappedEmit_Suc)
    from bookkeeping_mono [OF t this] r1' Returned show ?thesis by (simp add: wrappedEmit_Suc)
  qed
qed

lemma after_snapshot_mono:
  assumes w: "\<forall>s e c out. wrappedEmit k en opts s e c = Some out \<longrightarrow> wrappedEmit k' en opts s e c = Some out"
    and r: "after_snapshot k en opts node idm s = Some out"
  shows "after_snapshot k' en opts node idm s = Some out"
proof -
  let ?s' = "log_action (MirrorMapSet idm) (s\<lparr>mirror_map := idm\<rparr>)"
  obtain f s3 where f: "fullSnapshot_event en node ?s' = (f, s3)"
    by (cases "fullSnapshot_event en node ?s'")
  with r obtain r4 where r4: "wrappedEmit k en opts s3 f None = Some r4"
    by (cases "wrappedEmit k en opts s3 f None") (auto simp: after_snapshot_def)
  with w have r4': "wrappedEmit k' en opts s3 f None = Some r4" by blast
  show ?thesis
  proof (cases r4)
    case (Thrown err s4)
    with r f r4 r4' show ?thesis by (auto simp: after_snapshot_def)
  next
    case (Returned u s4)
    with r f r4 have "forEach (buffer_unlock (mutationCb k en opts)) (indices s4) s4 = Some out"
      by (simp add: after_snapshot_def)
    from forEach_mono [OF buffer_unlock_mono [OF mutationCb_mono [OF w]] this] f r4' Returned
    show ?thesis by (simp add: after_snapshot_def)
  qed
qed

lemma after_meta_mono:
  assumes w: "\<forall>s e c out. wrappedEmit k en opts s e c = Some out \<longrightarrow> wrappedEmit k' en opts s e c = Some out"
    and r: "after_meta k en opts s = Some out"
  shows "after_meta k' en opts s = Some out"
  using r after_snapshot_mono [OF w]
  by (auto simp: after_meta_def split: prod.splits option.splits)

lemma takeFullSnapshot_mono_step:
  assumes w: "\<forall>s e c out. wrappedEmit k en opts s e c = Some out \<longrightarrow> wrappedEmit k' en opts s e c = Some out"
    and r: "takeFullSnapshot (Suc k) en opts s c = Some out"
  shows "takeFullSnapshot (Suc k') en opts s c = Some out"
proof -
  obtain m s0 where m: "meta_event en s = (m, s0)" by (cases "meta_event en s")
  with r obtain r1 where r1: "wrappedEmit k en opts s0 m (Some c) = Some r1"
    by (cases "wrappedEmit k en opts s0 m (Some c)") (auto simp: takeFullSnapshot_Suc)
  with w have r1': "wrappedEmit k' en opts s0 m (Some c) = Some r1" by blast
  show ?thesis
  proof (cases r1)
    case (Thrown err s1)
    with r m r1 r1' show ?thesis by (auto simp: takeFullSnapshot_Suc)
  next
    case (Returned u s1)
    with r m r1 have "after_meta k en opts s1 = Some out" by (simp add: takeFullSnapshot_Suc)
    from after_meta_mono [OF w this] m r1' Returned show ?thesis
      by (simp add: takeFullSnapshot_Suc)
  qed
qed

lemma mono_both:
  "(\<forall>s e c out. wrappedEmit k en opts s e c = Some out \<longrightarrow> wrappedEmit (Suc k) en opts s e c = Some out) \<and>
   (\<forall>s c out. takeFullSnapshot k en opts s c = Some out \<longrightarrow> takeFullSnapshot (Suc k) en opts s c = Some out)"
proof (induction k)
  case 0
  show ?case by simp
next
  case (Suc k)
  then have w: "\<forall>s e c out. wrappedEmit k en opts s e c = Some out \<longrightarrow> wrappedEmit (Suc k) en opts s e c = Some out"
    and t: "\<forall>s c out. takeFullSnapshot k en opts s c = Some out \<longrightarrow> takeFullSnapshot (Suc k) en opts s c = Some out"
    by blast+
  show ?case
    using wrappedEmit_mono_step [OF w t] takeFullSnapshot_mono_step [OF w] by blast
qed

lemma wrappedEmit_fuel_mono:
  "k \<le> k' \<Longrightarrow> wrappedEmit k en opts s e c = Some out \<Longrightarrow> wrappedEmit k' en opts s e c = Some out"
  by (induction k' rule: dec_induct) (use mono_both in blast)+

lemma takeFullSnapshot_fuel_mono:
  "k \<le> k' \<Longrightarrow> takeFullSnapshot k en opts s c = Some out \<Longrightarrow> takeFullSnapshot k' en opts s c = Some out"
  by (induction k' rule: dec_induct) (use mono_both in blast)+

lemma wrappedEmit_total:
  "3 * pending_buffers s + 3 \<le> k \<Longrightarrow> wrappedEmit k en opts s e c \<noteq> None"
  using total_both [of "pending_buffers s"] by blast

text \<open>Beyond the bound the fuel does not matter.\<close>

lemma wrappedEmit_fuel_irrelevant:
  assumes "3 * pending_buffers s + 3 \<le> k" and "3 * pending_buffers s + 3 \<le> k'"
  shows "wrappedEmit k en opts s e c = wrappedEmit k' en opts s e c"
proof -
  from wrappedEmit_total [OF assms(1)] obtain out where out: "wrappedEmit k en opts s e c = Some out"
    by blast
  from wrappedEmit_total [OF assms(2)] obtain out' where out': "wrappedEmit k' en opts s e c = Some out'"
    by blast
  have "wrappedEmit (max k k') en opts s e c = Some out"
    by (rule wrappedEmit_fuel_mono [OF _ out]) simp
  moreover have "wrappedEmit (max k k') en opts s e c = Some out'"
    by (rule wrappedEmit_fuel_mono [OF _ out']) simp
  ultimately show ?thesis using out out' by simp
qed

lemma takeFullSnapshot_total:
  "3 * pending_buffers s + 2 \<le> k \<Longrightarrow> takeFullSnapshot k en opts s c \<noteq> None"
  using total_both [of "pending_buffers s"] by blast

subsection \<open>Locking, and the states in which nothing throws\<close>

lemma forEach_pure_append:
  "forEach_pure f (xs @ ys) s = forEach_pure f ys (forEach_pure f xs s)"
  by (induction xs arbitrary: s) auto

lemma update_take_drop:
  assumes "n < length bs"
  shows "(map g (take n bs) @ drop n bs)[n := g (bs ! n)] = map g (take (Suc n) bs) @ drop (Suc n) bs"
proof -
  have d: "drop n bs = bs ! n # drop (Suc n) bs"
    using assms by (simp add: Cons_nth_drop_Suc)
  have "(map g (take n bs) @ drop n bs)[n := g (bs ! n)]
          = map g (take n bs) @ (drop n bs)[0 := g (bs ! n)]"
    using assms by (simp add: list_update_append)
  also have "\<dots> = map g (take n bs) @ g (bs ! n) # drop (Suc n) bs"
    by (subst d) simp
  also have "\<dots> = map g (take (Suc n) bs) @ drop (Suc n) bs"
    using assms by (simp add: take_Suc_conv_app_nth)
  finally show ?thesis .
qed

lemma forEach_pure_upt:
  assumes f: "\<And>i s. f i s = log_action (A i) (set_buffer i (g (mutationBuffers s ! i)) s)"
  shows "n \<le> length (mutationBuffers s) \<Longrightarrow>
     forEach_pure f [0 ..< n] s =
       s\<lparr>mutationBuffers := map g (take n (mutationBuffers s)) @ drop n (mutationBuffers s),
         trace := trace s @ map A [0 ..< n]\<rparr>"
proof (induction n)
  case 0
  then show ?case by simp
next
  case (Suc n)
  let ?bs = "mutationBuffers s"
  let ?sn = "s\<lparr>mutationBuffers := map g (take n ?bs) @ drop n ?bs, trace := trace s @ map A [0 ..< n]\<rparr>"
  from Suc have n: "n < length ?bs" by simp
  then have nth: "(map g (take n ?bs) @ drop n ?bs) ! n = ?bs ! n"
    by (simp add: nth_append)
  have "forEach_pure f [0 ..< Suc n] s = forEach_pure f [n] ?sn"
    using Suc by (simp add: forEach_pure_append)
  also have "\<dots> = f n ?sn" using n by simp
  also have "\<dots> = s\<lparr>mutationBuffers := map g (take (Suc n) ?bs) @ drop (Suc n) ?bs,
         trace := trace s @ map A [0 ..< Suc n]\<rparr>"
    using n by (simp add: f log_action_def set_buffer_def nth update_take_drop)
  finally show ?case .
qed

lemma lock_all_eq:
  "lock_all s =
     s\<lparr>mutationBuffers := map (\<lambda>b. b\<lparr>locked := True\<rparr>) (mutationBuffers s),
       trace := trace s @ map BufLock (indices s)\<rparr>"
  unfolding lock_all_def indices_def
  using forEach_pure_upt [where f = buffer_lock and A = BufLock and g = "\<lambda>b. b\<lparr>locked := True\<rparr>"
      and n = "length (mutationBuffers s)" and s = s]
  by (simp add: buffer_lock_def)

lemma freezePage_eq:
  "freezePage s =
     s\<lparr>mutationBuffers := map (\<lambda>b. b\<lparr>frozen := True\<rparr>) (mutationBuffers s),
       trace := trace s @ map BufFreeze (indices s)\<rparr>"
  unfolding freezePage_def indices_def
  using forEach_pure_upt [where f = buffer_freeze and A = BufFreeze and g = "\<lambda>b. b\<lparr>frozen := True\<rparr>"
      and n = "length (mutationBuffers s)" and s = s]
  by (simp add: buffer_freeze_def)

lemma safe_evolves: "evolves s s' \<Longrightarrow> safe opts s \<Longrightarrow> safe opts s'"
  by (auto simp: evolves_def safe_def)

lemma forEach_returns:
  assumes ret: "\<forall>i s out. safe opts s \<longrightarrow> i < length (mutationBuffers s) \<longrightarrow> f i s = Some out
                  \<longrightarrow> (\<exists>s'. out = Returned () s')"
    and ev: "\<forall>i s out. f i s = Some out \<longrightarrow> i < length (mutationBuffers s) \<longrightarrow> evolves s (world_of out)"
  shows "safe opts s \<Longrightarrow> forEach f is s = Some out \<Longrightarrow> \<exists>s'. out = Returned () s'"
proof (induction "is" arbitrary: s)
  case Nil
  then show ?case by auto
next
  case (Cons i "is")
  show ?case
  proof (cases "i < length (mutationBuffers s)")
    case False
    with Cons show ?thesis by simp
  next
    case True
    with Cons.prems obtain r where r: "f i s = Some r" by (cases "f i s") auto
    with ret True Cons.prems obtain s' where s': "r = Returned () s'" by blast
    from ev r True have "evolves s (world_of r)" by blast
    with s' Cons.prems have "safe opts s'" by (auto intro: safe_evolves)
    moreover from r s' True Cons.prems have "forEach f is s' = Some out" by simp
    ultimately show ?thesis by (rule Cons.IH)
  qed
qed

lemma buffer_emit_returns:
  assumes cb: "\<forall>m s out. safe opts s \<longrightarrow> cb m s = Some out \<longrightarrow> (\<exists>s'. out = Returned () s')"
    and s: "safe opts s" and i: "i < length (mutationBuffers s)"
    and out: "buffer_emit cb i s = Some out"
  shows "\<exists>s'. out = Returned () s'"
proof -
  have "safe opts (set_buffer i ((mutationBuffers s ! i)\<lparr>pending := []\<rparr>) s)"
    using s by (simp add: safe_def set_buffer_def)
  with cb out show ?thesis
    by (auto simp: buffer_emit_def Let_def split: if_splits)
qed

lemma buffer_unfreeze_returns:
  assumes cb: "\<forall>m s out. safe opts s \<longrightarrow> cb m s = Some out \<longrightarrow> (\<exists>s'. out = Returned () s')"
  shows "\<forall>i s out. safe opts s \<longrightarrow> i < length (mutationBuffers s) \<longrightarrow>
           buffer_unfreeze cb i s = Some out \<longrightarrow> (\<exists>s'. out = Returned () s')"
proof (intro allI impI)
  fix i s out
  assume s: "safe opts s" and i: "i < length (mutationBuffers s)"
    and out: "buffer_unfreeze cb i s = Some out"
  let ?s1 = "log_action (BufUnfreeze i) (set_buffer i ((mutationBuffers s ! i)\<lparr>frozen := False\<rparr>) s)"
  have "safe opts ?s1" using s by (simp add: safe_def set_buffer_def log_action_def)
  moreover have "i < length (mutationBuffers ?s1)" using i by simp
  ultimately show "\<exists>s'. out = Returned () s'"
    using out unfolding buffer_unfreeze_def by (rule buffer_emit_returns [OF cb])
qed

lemma buffer_unlock_returns:
  assumes cb: "\<forall>m s out. safe opts s \<longrightarrow> cb m s = Some out \<longrightarrow> (\<exists>s'. out = Returned () s')"
  shows "\<forall>i s out. safe opts s \<longrightarrow> i < length (mutationBuffers s) \<longrightarrow>
           buffer_unlock cb i s = Some out \<longrightarrow> (\<exists>s'. out = Returned () s')"
proof (intro allI impI)
  fix i s out
  assume s: "safe opts s" and i: "i < length (mutationBuffers s)"
    and out: "buffer_unlock cb i s = Some out"
  let ?s1 = "log_action (BufUnlock i) (set_buffer i ((mutationBuffers s ! i)\<lparr>locked := False\<rparr>) s)"
  have "safe opts ?s1" using s by (simp add: safe_def set_buffer_def log_action_def)
  moreover have "i < length (mutationBuffers ?s1)" using i by simp
  ultimately show "\<exists>s'. out = Returned () s'"
    using out unfolding buffer_unlock_def by (rule buffer_emit_returns [OF cb])
qed

lemma mutationCb_returns:
  assumes "\<forall>s e c out. safe opts s \<longrightarrow> wrappedEmit k en opts s e c = Some out \<longrightarrow> (\<exists>s'. out = Returned () s')"
  shows "\<forall>m s out. safe opts s \<longrightarrow> mutationCb k en opts m s = Some out \<longrightarrow> (\<exists>s'. out = Returned () s')"
proof (intro allI impI)
  fix m s out
  assume s: "safe opts s" and out: "mutationCb k en opts m s = Some out"
  obtain e s' where e: "wrapEvent en (IncrementalSnapshotEvent Mutation m) s = (e, s')"
    by (cases "wrapEvent en (IncrementalSnapshotEvent Mutation m) s")
  from safe_evolves [OF evolves_wrapEvent [OF e] s] have "safe opts s'" .
  with assms out e show "\<exists>s'. out = Returned () s'" by (auto simp: mutationCb_def)
qed


lemma exceedTime_safe: "safe opts s \<Longrightarrow> \<exists>late. exceedTime opts e s = Inr late"
  by (auto simp: safe_def exceedTime_def split: option.splits)

lemma buffer_unfreeze_evolves_all:
  "\<forall>i s out. buffer_unfreeze (mutationCb k en opts) i s = Some out \<longrightarrow>
      i < length (mutationBuffers s) \<longrightarrow> evolves s (world_of out)"
  using buffer_unfreeze_evolves [OF mutationCb_evolves'] by blast

lemma buffer_unlock_evolves_all:
  "\<forall>i s out. buffer_unlock (mutationCb k en opts) i s = Some out \<longrightarrow>
      i < length (mutationBuffers s) \<longrightarrow> evolves s (world_of out)"
  using buffer_unlock_evolves [OF mutationCb_evolves'] by blast

lemma resume_returns:
  assumes w: "\<forall>s e c out. safe opts s \<longrightarrow> wrappedEmit k en opts s e c = Some out \<longrightarrow> (\<exists>s'. out = Returned () s')"
    and s: "safe opts s" and out: "resume_on_activity k en opts s e = Some out"
  shows "\<exists>s'. out = Returned () s'"
proof (cases "resumes s e")
  case False
  with out show ?thesis by (auto simp: resume_on_activity_def)
next
  case True
  with out have "forEach (buffer_unfreeze (mutationCb k en opts)) (indices s) s = Some out"
    by (simp add: resume_on_activity_def)
  from forEach_returns [OF buffer_unfreeze_returns [OF mutationCb_returns [OF w]]
      buffer_unfreeze_evolves_all s this]
  show ?thesis .
qed

lemma unlock_returns:
  assumes w: "\<forall>s e c out. safe opts s \<longrightarrow> wrappedEmit k en opts s e c = Some out \<longrightarrow> (\<exists>s'. out = Returned () s')"
    and s: "safe opts s" and out: "forEach (buffer_unlock (mutationCb k en opts)) is s = Some out"
  shows "\<exists>s'. out = Returned () s'"
  using forEach_returns [OF buffer_unlock_returns [OF mutationCb_returns [OF w]]
      buffer_unlock_evolves_all s out] .

lemma bookkeeping_returns:
  assumes t: "\<forall>s c out. safe opts s \<longrightarrow> takeFullSnapshot k en opts s c = Some out \<longrightarrow> (\<exists>s'. out = Returned () s')"
    and s: "safe opts s" and out: "bookkeeping k en opts s e = Some out"
  shows "\<exists>s'. out = Returned () s'"
proof -
  let ?s3 = "s\<lparr>incrementalSnapshotCount := incrementalSnapshotCount s + 1\<rparr>"
  have s3: "safe opts ?s3" using s by (simp add: safe_def)
  from exceedTime_safe [OF s3] obtain late where "exceedTime opts e ?s3 = Inr late" by blast
  with out t s3 show ?thesis
    by (auto simp: bookkeeping_def Let_def split: if_splits)
qed

lemma wrappedEmit_returns_step:
  assumes w: "\<forall>s e c out. safe opts s \<longrightarrow> wrappedEmit k en opts s e c = Some out \<longrightarrow> (\<exists>s'. out = Returned () s')"
    and t: "\<forall>s c out. safe opts s \<longrightarrow> takeFullSnapshot k en opts s c = Some out \<longrightarrow> (\<exists>s'. out = Returned () s')"
    and s: "safe opts s" and out: "wrappedEmit (Suc k) en opts s e c = Some out"
  shows "\<exists>s'. out = Returned () s'"
proof -
  from out obtain r1 where r1: "resume_on_activity k en opts s e = Some r1"
    by (cases "resume_on_activity k en opts s e") (auto simp: wrappedEmit_Suc)
  from resume_returns [OF w s r1] obtain s1 where s1: "r1 = Returned () s1" by blast
  have "evolves s (world_of r1)"
    using r1 by (rule resume_evolves [rotated]) (blast intro: wrappedEmit_evolves)
  with s1 have "evolves s (onEmit opts e c s1)"
    by (auto intro: evolves_trans [OF _ evolves_onEmit])
  from safe_evolves [OF this s] have "safe opts (onEmit opts e c s1)" .
  moreover from out r1 s1 have "bookkeeping k en opts (onEmit opts e c s1) e = Some out"
    by (simp add: wrappedEmit_Suc)
  ultimately show ?thesis by (rule bookkeeping_returns [OF t])
qed

lemma safe_after_fullSnapshot:
  "type_of (ev f) = FullSnapshot \<Longrightarrow> wrappedEmit k en opts s f c = Some out \<Longrightarrow>
     out = Returned () ((onEmit opts f c s)\<lparr>lastFullSnapshotEvent := Some f, incrementalSnapshotCount := 0\<rparr>)"
  by (cases k) (auto simp: wrappedEmit_Suc resume_on_activity_def resumes_def bookkeeping_def)

lemma after_snapshot_returns:
  assumes w: "\<forall>s e c out. safe opts s \<longrightarrow> wrappedEmit k en opts s e c = Some out \<longrightarrow> (\<exists>s'. out = Returned () s')"
    and out: "after_snapshot k en opts node idm s = Some out"
  shows "\<exists>s'. out = Returned () s'"
proof -
  let ?s' = "log_action (MirrorMapSet idm) (s\<lparr>mirror_map := idm\<rparr>)"
  obtain f s3 where f: "fullSnapshot_event en node ?s' = (f, s3)"
    by (cases "fullSnapshot_event en node ?s'")
  with out obtain r4 where r4: "wrappedEmit k en opts s3 f None = Some r4"
    by (cases "wrappedEmit k en opts s3 f None") (auto simp: after_snapshot_def)
  let ?s4 = "(onEmit opts f None s3)\<lparr>lastFullSnapshotEvent := Some f, incrementalSnapshotCount := 0\<rparr>"
  from safe_after_fullSnapshot [OF type_of_fullSnapshot_event [OF f] r4]
  have r4': "r4 = Returned () ?s4" .
  have "safe opts ?s4" by (simp add: safe_def)
  moreover from out f r4 r4'
  have "forEach (buffer_unlock (mutationCb k en opts)) (indices ?s4) ?s4 = Some out"
    by (simp add: after_snapshot_def)
  ultimately show ?thesis by (rule unlock_returns [OF w])
qed

lemma after_meta_returns:
  assumes w: "\<forall>s e c out. safe opts s \<longrightarrow> wrappedEmit k en opts s e c = Some out \<longrightarrow> (\<exists>s'. out = Returned () s')"
    and out: "after_meta k en opts s = Some out"
  shows "\<exists>s'. out = Returned () s'"
  using out after_snapshot_returns [OF w]
  by (auto simp: after_meta_def split: prod.splits option.splits)

lemma takeFullSnapshot_returns_step:
  assumes w: "\<forall>s e c out. safe opts s \<longrightarrow> wrappedEmit k en opts s e c = Some out \<longrightarrow> (\<exists>s'. out = Returned () s')"
    and s: "safe opts s" and out: "takeFullSnapshot (Suc k) en opts s c = Some out"
  shows "\<exists>s'. out = Returned () s'"
proof -
  obtain m s0 where m: "meta_event en s = (m, s0)" by (cases "meta_event en s")
  with out obtain r1 where r1: "wrappedEmit k en opts s0 m (Some c) = Some r1"
    by (cases "wrappedEmit k en opts s0 m (Some c)") (auto simp: takeFullSnapshot_Suc)
  from safe_evolves [OF evolves_meta_event [OF m] s] have "safe opts s0" .
  with w r1 obtain s1 where s1: "r1 = Returned () s1" by blast
  with out m r1 have "after_meta k en opts s1 = Some out" by (simp add: takeFullSnapshot_Suc)
  then show ?thesis by (rule after_meta_returns [OF w])
qed

lemma returns_both:
  "(\<forall>s e c out. safe opts s \<longrightarrow> wrappedEmit k en opts s e c = Some out \<longrightarrow> (\<exists>s'. out = Returned () s')) \<and>
   (\<forall>s c out. safe opts s \<longrightarrow> takeFullSnapshot k en opts s c = Some out \<longrightarrow> (\<exists>s'. out = Returned () s'))"
proof (induction k)
  case 0
  show ?case by simp
next
  case (Suc k)
  then have w: "\<forall>s e c out. safe opts s \<longrightarrow> wrappedEmit k en opts s e c = Some out \<longrightarrow> (\<exists>s'. out = Returned () s')"
    and t: "\<forall>s c out. safe opts s \<longrightarrow> takeFullSnapshot k en opts s c = Some out \<longrightarrow> (\<exists>s'. out = Returned () s')"
    by blast+
  show ?case
    using wrappedEmit_returns_step [OF w t] takeFullSnapshot_returns_step [OF w] by blast
qed

lemma wrappedEmit_returns:
  "safe opts s \<Longrightarrow> wrappedEmit k en opts s e c = Some out \<Longrightarrow> \<exists>s'. out = Returned () s'"
  using returns_both by blast

lemma takeFullSnapshot_returns:
  "safe opts s \<Longrightarrow> takeFullSnapshot k en opts s c = Some out \<Longrightarrow> \<exists>s'. out = Returned () s'"
  using returns_both by blast

subsection \<open>The shape of a checkpoint\<close>

lemma resume_skip: "\<not> resumes s e \<Longrightarrow> resume_on_activity k en opts s e = Some (Returned () s)"
  by (simp add: resume_on_activity_def)

lemma wrappedEmit_other:
  assumes "type_of (ev e) \<noteq> FullSnapshot" "type_of (ev e) \<noteq> IncrementalSnapshot"
  shows "wrappedEmit (Suc k) en opts s e c =
     (case resume_on_activity k en opts s e of
        None \<Rightarrow> None
      | Some (Thrown err s1) \<Rightarrow> Some (Thrown err s1)
      | Some (Returned u s1) \<Rightarrow> Some (Returned () (onEmit opts e c s1)))"
  using assms by (simp add: wrappedEmit_Suc bookkeeping_def split: option.split outcome.split)

lemma resume_evolves': "resume_on_activity k en opts s e = Some out \<Longrightarrow> evolves s (world_of out)"
  using resume_evolves [of k en opts s e out] wrappedEmit_evolves by blast

lemma resumes_first: "resumes s e \<Longrightarrow> first_isFrozen s"
  by (simp add: resumes_def)

text \<open>The emission of Meta, when it returns.\<close>

lemma meta_emission:
  assumes m: "meta_event en s = (m, s0)"
    and r: "wrappedEmit k en opts s0 m c = Some (Returned () s1)"
  shows "\<exists>pre. trace s1 = trace s @ pre @ [OnEmit (deliver opts m) c] \<and>
           (\<not> first_isFrozen s \<longrightarrow> pre = [] \<and> s1 = onEmit opts m c s0)"
proof -
  from r obtain k' where k: "k = Suc k'" by (cases k) auto
  have ty: "type_of (ev m) \<noteq> FullSnapshot" "type_of (ev m) \<noteq> IncrementalSnapshot"
    using type_of_meta_event [OF m] by simp_all
  from r k obtain sr where sr: "resume_on_activity k' en opts s0 m = Some (Returned () sr)"
    and s1: "s1 = onEmit opts m c sr"
    by (auto simp: wrappedEmit_other [OF ty] split: option.splits outcome.splits)
  from resume_evolves' [OF sr] obtain pre where pre: "trace sr = trace s0 @ pre"
    by (auto simp: evolves_def)
  have t0: "trace s0 = trace s" "first_isFrozen s0 = first_isFrozen s"
    using m by (auto simp: meta_event_def wrapEvent_def first_isFrozen_def)
  have "pre = [] \<and> s1 = onEmit opts m c s0" if "\<not> first_isFrozen s"
  proof -
    from that t0 have "\<not> resumes s0 m" by (auto dest: resumes_first)
    from resume_skip [OF this, of k' en opts] sr have "sr = s0" by simp
    with pre s1 show ?thesis by simp
  qed
  with pre s1 t0 show ?thesis
    by (auto simp: onEmit_def log_action_def)
qed

lemma takeFullSnapshot_Returned:
  assumes "takeFullSnapshot k en opts s c = Some (Returned () r)"
  obtains k' m s0 s1 where "k = Suc k'" "meta_event en s = (m, s0)"
    "wrappedEmit k' en opts s0 m (Some c) = Some (Returned () s1)"
    "after_meta k' en opts s1 = Some (Returned () r)"
proof -
  from assms obtain k' where k: "k = Suc k'" by (cases k) auto
  obtain m s0 where m: "meta_event en s = (m, s0)" by (cases "meta_event en s")
  from assms k m obtain s1 where "wrappedEmit k' en opts s0 m (Some c) = Some (Returned () s1)"
    "after_meta k' en opts s1 = Some (Returned () r)"
    by (auto simp: takeFullSnapshot_Suc split: option.splits outcome.splits)
  with k m that show ?thesis by blast
qed

lemma call_snapshot_lock_all:
  "call_snapshot en (lock_all s) =
     (snapshot en (snapshots s),
      s\<lparr>mutationBuffers := map (\<lambda>b. b\<lparr>locked := True\<rparr>) (mutationBuffers s),
        trace := trace s @ map BufLock (indices s) @ [SnapshotCall],
        snapshots := Suc (snapshots s)\<rparr>)"
  by (simp add: call_snapshot_def lock_all_eq log_action_def)

subsection \<open>What the loops over the buffers leave in the trace\<close>

lemma actions_since_evolves: "evolves s r \<Longrightarrow> trace r = trace s @ actions_since s r"
  by (auto simp: evolves_def actions_since_def)

lemma actions_since_trans:
  "evolves a b \<Longrightarrow> evolves b c \<Longrightarrow> actions_since a c = actions_since a b @ actions_since b c"
  by (auto simp: evolves_def actions_since_def)

lemma forEach_Cons_Returned:
  assumes "forEach f (i # is) s = Some (Returned () r)" "i < length (mutationBuffers s)"
  obtains s' where "f i s = Some (Returned () s')" "forEach f is s' = Some (Returned () r)"
  using assms by (auto split: option.splits outcome.splits)

lemma forEach_marks:
  assumes ev: "\<forall>i s out. f i s = Some out \<longrightarrow> i < length (mutationBuffers s) \<longrightarrow> evolves s (world_of out)"
    and mark: "\<forall>i s out. f i s = Some out \<longrightarrow> i < length (mutationBuffers s)
                 \<longrightarrow> A i \<in> set (actions_since s (world_of out))"
  shows "forEach f is s = Some (Returned () r) \<Longrightarrow>
         \<forall>i \<in> set is. i < length (mutationBuffers s) \<longrightarrow> A i \<in> set (actions_since s r)"
proof (induction "is" arbitrary: s)
  case Nil
  then show ?case by simp
next
  case (Cons i "is")
  show ?case
  proof (cases "i < length (mutationBuffers s)")
    case False
    with Cons show ?thesis by auto
  next
    case True
    from Cons.prems True obtain s' where s': "f i s = Some (Returned () s')"
      and rest: "forEach f is s' = Some (Returned () r)"
      by (rule forEach_Cons_Returned)
    from ev s' True have e1: "evolves s s'" by fastforce
    from forEach_evolves [OF ev rest] have e2: "evolves s' r" by simp
    from mark s' True have "A i \<in> set (actions_since s s')" by fastforce
    moreover from Cons.IH [OF rest] e1
    have "\<forall>j \<in> set is. j < length (mutationBuffers s) \<longrightarrow> A j \<in> set (actions_since s' r)"
      by (simp add: evolves_def)
    ultimately show ?thesis
      by (auto simp: actions_since_trans [OF e1 e2])
  qed
qed


lemma buffer_unlock_marks:
  "\<forall>i s out. buffer_unlock (mutationCb k en opts) i s = Some out \<longrightarrow> i < length (mutationBuffers s)
      \<longrightarrow> BufUnlock i \<in> set (actions_since s (world_of out))"
proof (intro allI impI)
  fix i s out
  assume out: "buffer_unlock (mutationCb k en opts) i s = Some out"
    and i: "i < length (mutationBuffers s)"
  let ?s1 = "log_action (BufUnlock i) (set_buffer i ((mutationBuffers s ! i)\<lparr>locked := False\<rparr>) s)"
  have "i < length (mutationBuffers ?s1)" using i by simp
  from buffer_emit_evolves [OF mutationCb_evolves' this] out
  have "evolves ?s1 (world_of out)" by (simp add: buffer_unlock_def)
  then obtain t where "trace (world_of out) = trace ?s1 @ t" by (auto simp: evolves_def)
  then show "BufUnlock i \<in> set (actions_since s (world_of out))"
    by (simp add: actions_since_def log_action_def set_buffer_def)
qed



subsection \<open>Running the examples\<close>

lemmas run_simps =
  wrappedEmit_Suc takeFullSnapshot_Suc resume_on_activity_def bookkeeping_def
  meta_event_def fullSnapshot_event_def after_meta_def after_snapshot_def wrapEvent_def
  onEmit_def deliver_def log_action_def console_warn_def call_snapshot_def lock_all_eq indices_def
  resumes_def first_isFrozen_def exceedTime_def exceedCount_def initialOffset_def or_else_def
  mutationCb_def observerCb_def buffer_unlock_def buffer_unfreeze_def buffer_emit_def set_buffer_def
  record_start_def Recorder_record_def init_def new_Recorder_def handlers_push_def
  on_listener_def observe_def Let_def

lemmas example_defs =
  page_ok_def page_failing_def opts_plain_def opts_ms_def opts_nth_def world0_def
  session_started_def session_unsnapped_def two_documents_def two_documents_stuck_def
  click_at_def after_first_click_def after_second_click_def meta_at_def
  two_documents_checkpointed_def mutation_event_def fullSnapshot_at_def frozen_session_def
  paused_session_def mid_resume_def resumed_by_click_def resumed_session_def first_paused_def
  opts_both_def after_two_events_def

lemmas session_simps = freezePage_eq iframe_load_listener_def buffer_processMutations_def

lemma record_start_page_ok:
  "record_start 2 page_ok opts_plain world0 = Some (Returned (Some Disposer) session_started)"
  by (simp add: run_simps example_defs numeral_2_eq_2)

lemma record_start_page_failing:
  "record_start 2 page_failing opts_ms world0 = Some (Returned (Some Disposer) session_unsnapped)"
  by (simp add: run_simps example_defs numeral_2_eq_2)

lemma record_start_nth:
  "record_start 2 page_ok (opts_nth 1) world0 = Some (Returned (Some Disposer) session_started)"
  by (simp add: run_simps example_defs numeral_2_eq_2)

section \<open>Input masking\<close>

text \<open>
  C10. If \<open>maskAllInputs\<close> is exactly \<open>true\<close>, the effective mask-input options
  mask every input kind, whatever \<open>maskInputOptions\<close> was supplied; otherwise the
  supplied \<open>maskInputOptions\<close> is used unchanged, and when that is undefined too
  no input kind is masked.
\<close>

theorem maskInputOptions_effective:
  "(maskAllInputs opts = Some True \<longrightarrow> (\<forall>k. masks (maskInputOptions_of opts) k)) \<and>
   (maskAllInputs opts \<noteq> Some True \<longrightarrow>
      (\<forall>m. maskInputOptions opts = Some m \<longrightarrow> maskInputOptions_of opts = m) \<and>
      (maskInputOptions opts = None \<longrightarrow> (\<forall>k. \<not> masks (maskInputOptions_of opts) k)))"
  by (simp add: maskInputOptions_of_def masks_def)

theorem maskInputOptions_effective_witness:
  "maskAllInputs opts_maskAll = Some True \<and>
   masks (maskInputOptions_of opts_maskAll) kind_select \<and>
   maskAllInputs opts_maskText \<noteq> Some True \<and>
   masks (maskInputOptions_of opts_maskText) kind_text \<and>
   \<not> masks (maskInputOptions_of opts_maskText) kind_email \<and>
   maskAllInputs opts_plain \<noteq> Some True \<and> maskInputOptions opts_plain = None \<and>
   \<not> masks (maskInputOptions_of opts_plain) kind_text"
proof -
  have a: "maskAllInputs opts_maskAll = Some True"
    by (simp add: opts_maskAll_def opts_plain_def)
  have b: "maskAllInputs opts_maskText \<noteq> Some True"
    and c: "maskInputOptions opts_maskText = Some (\<lambda>k. if k = kind_text then Some True else None)"
    by (simp_all add: opts_maskText_def opts_plain_def)
  have d: "maskAllInputs opts_plain \<noteq> Some True" and e: "maskInputOptions opts_plain = None"
    by (simp_all add: opts_plain_def)
  from maskInputOptions_effective [of opts_maskAll] a
  have 1: "masks (maskInputOptions_of opts_maskAll) kind_select" by blast
  from maskInputOptions_effective [of opts_maskText] b c
  have "maskInputOptions_of opts_maskText = (\<lambda>k. if k = kind_text then Some True else None)"
    by blast
  then have 2: "masks (maskInputOptions_of opts_maskText) kind_text"
    and 3: "\<not> masks (maskInputOptions_of opts_maskText) kind_email"
    by (simp_all add: masks_def)
  from maskInputOptions_effective [of opts_plain] d e
  have 4: "\<not> masks (maskInputOptions_of opts_plain) kind_text" by blast
  from a b d e 1 2 3 4 show ?thesis by blast
qed

section \<open>Starting a recording\<close>

lemma Recorder_record_never_throws: "Recorder_record k en opts s \<noteq> Some (Thrown err s')"
  by (auto simp: Recorder_record_def Let_def split: option.splits outcome.splits)

lemma pending_buffers_start [simp]:
  "pending_buffers (handlers_push (on_listener name (new_Recorder s\<lparr>handlers := []\<rparr>))) = pending_buffers s"
  by (simp add: pending_buffers_def handlers_push_def on_listener_def new_Recorder_def)

lemma Recorder_record_returns:
  assumes "3 * pending_buffers s + 2 \<le> k"
  shows "\<exists>v s'. Recorder_record k en opts (new_Recorder s) = Some (Returned v s') \<and> recorder s'
           \<and> \<not> recording s' \<and> Listener ''DOMContentLoaded'' \<in> set (attached s')"
proof -
  let ?s1 = "handlers_push (on_listener ''DOMContentLoaded'' (new_Recorder s\<lparr>handlers := []\<rparr>))"
  have s1: "recorder ?s1" "\<not> recording ?s1" "Listener ''DOMContentLoaded'' \<in> set (attached ?s1)"
    by (simp_all add: handlers_push_def on_listener_def new_Recorder_def)
  show ?thesis
  proof (cases "document_readyState en = Interactive \<or> document_readyState en = Complete")
    case False
    with s1 show ?thesis
      by (auto simp: Recorder_record_def Let_def handlers_push_def on_listener_def)
  next
    case True
    from assms have "takeFullSnapshot k en opts ?s1 False \<noteq> None"
      by (intro takeFullSnapshot_total) simp
    then obtain r where r: "takeFullSnapshot k en opts ?s1 False = Some r" by blast
    from takeFullSnapshot_evolves [OF r] s1
    have "recorder (world_of r)" "\<not> recording (world_of r)"
      "Listener ''DOMContentLoaded'' \<in> set (attached (world_of r))"
      by (simp_all add: evolves_def)
    with True r show ?thesis
      by (cases r)
        (auto simp: Recorder_record_def init_def Let_def handlers_push_def observe_def
          console_warn_def log_action_def)
  qed
qed

text \<open>
  C8. \<open>record\<close> throws the configuration error if and only if the \<open>emit\<close>
  callback is absent. With \<open>emit\<close> present it is \<open>Recorder.record\<close> of a new
  recorder, it throws nothing at all, and given enough fuel it returns with the
  recorder in place and the \<open>DOMContentLoaded\<close> listener attached.
\<close>

theorem record_start_configuration_error:
  "(record_start k en opts s = Some (Thrown (Error ''emit function is required'') s)
      \<longleftrightarrow> emit opts = None) \<and>
   (emit opts \<noteq> None \<longrightarrow>
      record_start k en opts s = Recorder_record k en opts (new_Recorder s) \<and>
      (\<forall>err s'. record_start k en opts s \<noteq> Some (Thrown err s')) \<and>
      (3 * pending_buffers s + 2 \<le> k \<longrightarrow>
         (\<exists>v s'. record_start k en opts s = Some (Returned v s') \<and> recorder s' \<and>
                  Listener ''DOMContentLoaded'' \<in> set (attached s'))))"
proof (cases "emit opts = None")
  case True
  then show ?thesis by (simp add: record_start_def)
next
  case False
  then have eq: "record_start k en opts s = Recorder_record k en opts (new_Recorder s)"
    by (auto simp: record_start_def)
  have "\<forall>err s'. record_start k en opts s \<noteq> Some (Thrown err s')"
    unfolding eq by (simp add: Recorder_record_never_throws)
  moreover have "\<exists>v s'. record_start k en opts s = Some (Returned v s') \<and> recorder s' \<and>
                  Listener ''DOMContentLoaded'' \<in> set (attached s')"
    if "3 * pending_buffers s + 2 \<le> k"
    unfolding eq using Recorder_record_returns [OF that, of en opts] by blast
  ultimately show ?thesis using False eq by auto
qed

theorem record_start_configuration_error_witness:
  "emit (opts_plain\<lparr>emit := None\<rparr>) = None \<and>
   record_start 2 page_ok (opts_plain\<lparr>emit := None\<rparr>) world0
     = Some (Thrown (Error ''emit function is required'') world0) \<and>
   emit opts_plain \<noteq> None \<and> 3 * pending_buffers world0 + 2 \<le> 2 \<and>
   record_start 2 page_ok opts_plain world0 = Some (Returned (Some Disposer) session_started) \<and>
   record_start 2 page_ok opts_plain world0
     \<noteq> Some (Thrown (Error ''emit function is required'') world0)"
proof -
  have a: "emit (opts_plain\<lparr>emit := None\<rparr>) = None" by simp
  have b: "emit opts_plain \<noteq> None" by (simp add: opts_plain_def)
  have c: "3 * pending_buffers world0 + 2 \<le> 2" by (simp add: pending_buffers_def world0_def)
  from record_start_configuration_error [of 2 page_ok "opts_plain\<lparr>emit := None\<rparr>" world0] a
  have 1: "record_start 2 page_ok (opts_plain\<lparr>emit := None\<rparr>) world0
     = Some (Thrown (Error ''emit function is required'') world0)" by blast
  from record_start_configuration_error [of 2 page_ok opts_plain world0] b
  have 2: "record_start 2 page_ok opts_plain world0
     \<noteq> Some (Thrown (Error ''emit function is required'') world0)" by blast
  from a b c 1 2 record_start_page_ok show ?thesis by blast
qed

section \<open>Custom events\<close>

text \<open>
  C2, as the code behaves: after any call of \<open>record\<close> that returned, every call
  of \<open>record.addCustomEvent\<close> throws the illegal-state error and emits nothing,
  since \<open>recording\<close> is still \<open>false\<close>.
\<close>

theorem addCustomEvent_after_start_throws:
  assumes "record_start k en opts s = Some (Returned v s')"
  shows "record_addCustomEvent k' en opts s' tag payload
           = Some (Thrown (Error ''please add custom event after start recording'') s')"
proof -
  from assms have e: "emit opts \<noteq> None"
    and r: "Recorder_record k en opts (new_Recorder s) = Some (Returned v s')"
    by (auto simp: record_start_def split: if_splits)
  let ?s1 = "handlers_push (on_listener ''DOMContentLoaded'' (new_Recorder s\<lparr>handlers := []\<rparr>))"
  have s1: "recorder ?s1" "\<not> recording ?s1"
    by (simp_all add: handlers_push_def on_listener_def new_Recorder_def)
  have "recorder s' \<and> \<not> recording s'"
  proof (cases "document_readyState en = Interactive \<or> document_readyState en = Complete")
    case False
    with r s1 show ?thesis
      by (auto simp: Recorder_record_def Let_def handlers_push_def on_listener_def)
  next
    case True
    with r obtain r1 where r1: "takeFullSnapshot k en opts ?s1 False = Some r1"
      by (cases "takeFullSnapshot k en opts ?s1 False")
        (auto simp: Recorder_record_def init_def Let_def)
    from takeFullSnapshot_evolves [OF r1] s1
    have "recorder (world_of r1)" "\<not> recording (world_of r1)"
      by (simp_all add: evolves_def)
    with True r r1 show ?thesis
      by (cases r1)
        (auto simp: Recorder_record_def init_def Let_def handlers_push_def observe_def
          console_warn_def log_action_def)
  qed
  then show ?thesis
    by (simp add: record_addCustomEvent_def Recorder_addCustomEvent_def)
qed

theorem addCustomEvent_after_start_throws_witness:
  "record_start 2 page_ok opts_plain world0 = Some (Returned (Some Disposer) session_started) \<and>
   record_addCustomEvent 5 page_ok opts_plain session_started ''tag'' ''payload''
     = Some (Thrown (Error ''please add custom event after start recording'') session_started)"
  using addCustomEvent_after_start_throws [OF record_start_page_ok] record_start_page_ok
  by simp

section \<open>Stopping\<close>

lemma fold_call_handler:
  "fold call_handler hs s = s\<lparr>attached := filter (\<lambda>d. d \<notin> set hs) (attached s)\<rparr>"
proof (induction hs arbitrary: s)
  case Nil
  then show ?case by simp
next
  case (Cons h hs)
  have f: "filter (\<lambda>d. d \<notin> set hs) (filter (\<lambda>x. x \<noteq> h) xs) = filter (\<lambda>d. d \<notin> set (h # hs)) xs"
    for xs :: "detector list"
    by (induction xs) auto
  have "fold call_handler (h # hs) s = fold call_handler hs (call_handler h s)" by simp
  also have "\<dots> = (call_handler h s)\<lparr>attached :=
      filter (\<lambda>d. d \<notin> set hs) (attached (call_handler h s))\<rparr>"
    by (rule Cons.IH)
  also have "\<dots> = s\<lparr>attached := filter (\<lambda>d. d \<notin> set (h # hs)) (attached s)\<rparr>"
    unfolding call_handler_def removeAll_filter_not_eq using f [of "attached s"]
    by (simp add: neq_commute)
  finally show ?case .
qed

lemma disposer_eq:
  "disposer s = s\<lparr>attached := filter (\<lambda>d. d \<notin> set (handlers s)) (attached s)\<rparr>"
  by (simp add: disposer_def fold_call_handler)

text \<open>
  C7. The disposer is idempotent: a second call, and any number of further calls,
  leaves the world as the first call left it.
\<close>

theorem disposer_idempotent:
  "disposer (disposer s) = disposer s \<and> (disposer ^^ Suc n) s = disposer s"
proof -
  have 1: "disposer (disposer s) = disposer s" for s
    by (simp add: disposer_eq)
  have "(disposer ^^ Suc n) s = disposer s"
  proof (induction n)
    case 0
    show ?case by simp
  next
    case (Suc n)
    have "(disposer ^^ Suc (Suc n)) s = disposer ((disposer ^^ Suc n) s)" by simp
    also have "\<dots> = disposer (disposer s)" by (simp only: Suc)
    finally show ?case by (simp only: 1)
  qed
  with 1 show ?thesis by simp
qed

section \<open>A checkpoint whose serializer returns no tree\<close>

text \<open>
  C1, as the code behaves: when the serializer returns no node, a call of
  \<open>takeFullSnapshot\<close> that returns leaves every mutation buffer locked. The last
  actions of the call are the locks, the serializer call and the warning: no lock
  is released.
\<close>

theorem failed_snapshot_keeps_locks:
  assumes "takeFullSnapshot k en opts s c = Some (Returned () r)"
    and "\<forall>j. fst (snapshot en j) = None"
  shows "(\<forall>b \<in> set (mutationBuffers r). locked b) \<and>
         length (mutationBuffers r) = length (mutationBuffers s) \<and>
         (\<exists>t. trace r = trace s @ t @ map BufLock (indices s)
                  @ [SnapshotCall, ConsoleWarn (WarnMessage ''Failed to snapshot the document'')])"
proof -
  from assms(1) obtain k' m s0 s1 where m: "meta_event en s = (m, s0)"
    and s1: "wrappedEmit k' en opts s0 m (Some c) = Some (Returned () s1)"
    and r: "after_meta k' en opts s1 = Some (Returned () r)"
    by (rule takeFullSnapshot_Returned)
  from assms(2) obtain idm where "snapshot en (snapshots s1) = (None, idm)"
    by (metis prod.collapse)
  with r have r': "r = console_warn (WarnMessage ''Failed to snapshot the document'')
      (s1\<lparr>mutationBuffers := map (\<lambda>b. b\<lparr>locked := True\<rparr>) (mutationBuffers s1),
        trace := trace s1 @ map BufLock (indices s1) @ [SnapshotCall],
        snapshots := Suc (snapshots s1)\<rparr>)"
    by (simp add: after_meta_def call_snapshot_lock_all)
  have "evolves s s1"
    using evolves_trans [OF evolves_meta_event [OF m] wrappedEmit_evolves [OF s1]] by simp
  then obtain t where "trace s1 = trace s @ t" "length (mutationBuffers s1) = length (mutationBuffers s)"
    by (auto simp: evolves_def)
  with r' show ?thesis
    by (auto simp: console_warn_def log_action_def indices_def)
qed


theorem failed_snapshot_keeps_locks_witness:
  "takeFullSnapshot 2 page_failing opts_plain two_documents True
     = Some (Returned () two_documents_stuck) \<and>
   map locked (mutationBuffers two_documents_stuck) = [True, True] \<and>
   length (mutationBuffers two_documents) = 2 \<and>
   (\<exists>t. trace two_documents_stuck = trace two_documents @ t @ map BufLock (indices two_documents)
            @ [SnapshotCall, ConsoleWarn (WarnMessage ''Failed to snapshot the document'')])"
proof -
  have e: "takeFullSnapshot 2 page_failing opts_plain two_documents True
     = Some (Returned () two_documents_stuck)"
    by (simp add: run_simps example_defs numeral_2_eq_2)
  have f: "\<forall>j. fst (snapshot page_failing j) = None"
    by (simp add: page_failing_def)
  from failed_snapshot_keeps_locks [OF e f] e show ?thesis
    by (simp add: two_documents_stuck_def two_documents_def)
qed

section \<open>An incremental event before any full snapshot\<close>

text \<open>
  C9, as the code behaves: with a time-based cadence configured and no
  \<open>FullSnapshot\<close> stored, as in a session whose first serializer call returned no
  tree, the emit pipeline hands an \<open>IncrementalSnapshot\<close> to the consumer and then
  throws a TypeError when it reads \<open>lastFullSnapshotEvent.timestamp\<close>.
\<close>

theorem incremental_without_fullSnapshot_throws:
  assumes "lastFullSnapshotEvent s = None"
    and "checkoutEveryNms opts = Some ms" and "ms \<noteq> 0"
    and "type_of (ev e) = IncrementalSnapshot"
    and "\<not> first_isFrozen s"
  shows "wrappedEmit (Suc k) en opts s e c =
           Some (Thrown (TypeError ''Cannot read property timestamp of undefined'')
                  ((onEmit opts e c s)\<lparr>incrementalSnapshotCount := incrementalSnapshotCount s + 1\<rparr>))"
proof -
  from assms(5) have "\<not> resumes s e" by (auto dest: resumes_first)
  from resume_skip [OF this] assms(1-4) show ?thesis
    by (simp add: wrappedEmit_Suc bookkeeping_def exceedTime_def onEmit_def log_action_def Let_def)
qed

theorem incremental_without_fullSnapshot_throws_witness:
  "record_start 2 page_failing opts_ms world0 = Some (Returned (Some Disposer) session_unsnapped) \<and>
   lastFullSnapshotEvent session_unsnapped = None \<and>
   checkoutEveryNms opts_ms = Some 1000 \<and>
   type_of (ev (click_at 5000)) = IncrementalSnapshot \<and>
   \<not> first_isFrozen session_unsnapped \<and>
   wrappedEmit 3 page_failing opts_ms session_unsnapped (click_at 5000) None =
     Some (Thrown (TypeError ''Cannot read property timestamp of undefined'')
       ((onEmit opts_ms (click_at 5000) None session_unsnapped)\<lparr>incrementalSnapshotCount := 1\<rparr>))"
proof -
  have a: "lastFullSnapshotEvent session_unsnapped = None"
    and b: "checkoutEveryNms opts_ms = Some 1000" and b': "(1000::int) \<noteq> 0"
    and c: "type_of (ev (click_at 5000)) = IncrementalSnapshot"
    and d: "\<not> first_isFrozen session_unsnapped"
    and n: "incrementalSnapshotCount session_unsnapped = 0"
    by (simp_all add: example_defs first_isFrozen_def)
  from incremental_without_fullSnapshot_throws [OF a b b' c d, of 2 page_failing None]
    record_start_page_failing a b c d n
  show ?thesis by (simp add: numeral_3_eq_3)
qed

section \<open>The time-based cadence\<close>

lemma after_snapshot_evolves:
  assumes "after_snapshot k en opts node idm s = Some out"
  shows "evolves s (world_of out)"
proof -
  let ?s' = "log_action (MirrorMapSet idm) (s\<lparr>mirror_map := idm\<rparr>)"
  obtain f s3 where f: "fullSnapshot_event en node ?s' = (f, s3)"
    by (cases "fullSnapshot_event en node ?s'")
  have e3: "evolves s s3"
    by (rule evolves_trans [OF evolves_fields(4)
          evolves_trans [OF evolves_log_action evolves_fullSnapshot_event [OF f]]])
  from assms f obtain r4 where r4: "wrappedEmit k en opts s3 f None = Some r4"
    by (cases "wrappedEmit k en opts s3 f None") (auto simp: after_snapshot_def)
  note e4 = evolves_trans [OF e3 wrappedEmit_evolves [OF r4]]
  have w: "\<forall>s e c out. wrappedEmit k en opts s e c = Some out \<longrightarrow> evolves s (world_of out)"
    using wrappedEmit_evolves by blast
  show ?thesis
  proof (cases r4)
    case (Thrown err s4)
    with assms f r4 e4 show ?thesis by (auto simp: after_snapshot_def)
  next
    case (Returned u s4)
    with assms f r4 have "forEach (buffer_unlock (mutationCb k en opts)) (indices s4) s4 = Some out"
      by (simp add: after_snapshot_def)
    from unlock_loop_evolves [OF w this] e4 Returned show ?thesis
      by (auto intro: evolves_trans)
  qed
qed

lemma after_meta_evolves:
  assumes "after_meta k en opts s = Some out"
  shows "evolves s (world_of out)"
proof -
  obtain res idm s2 where sn: "call_snapshot en (lock_all s) = ((res, idm), s2)"
    by (cases "call_snapshot en (lock_all s)") auto
  have e2: "evolves s s2"
    by (rule evolves_trans [OF evolves_lock_all evolves_call_snapshot [OF sn]])
  show ?thesis
  proof (cases res)
    case None
    with assms sn e2 show ?thesis
      by (auto simp: after_meta_def intro: evolves_trans [OF _ evolves_console_warn])
  next
    case (Some node)
    with assms sn have "after_snapshot k en opts node idm s2 = Some out"
      by (simp add: after_meta_def)
    from evolves_trans [OF e2 after_snapshot_evolves [OF this]] show ?thesis .
  qed
qed

lemma takeFullSnapshot_emits_meta:
  assumes "takeFullSnapshot k en opts s c = Some (Returned () r)"
  shows "\<exists>m s0 pre post. meta_event en s = (m, s0) \<and>
           trace r = trace s @ pre @ [OnEmit (deliver opts m) (Some c)] @ post \<and>
           (\<not> first_isFrozen s \<longrightarrow> pre = [])"
proof -
  from assms obtain k' m s0 s1 where m: "meta_event en s = (m, s0)"
    and s1: "wrappedEmit k' en opts s0 m (Some c) = Some (Returned () s1)"
    and r: "after_meta k' en opts s1 = Some (Returned () r)"
    by (rule takeFullSnapshot_Returned)
  from meta_emission [OF m s1] obtain pre
    where pre: "trace s1 = trace s @ pre @ [OnEmit (deliver opts m) (Some c)]"
      "\<not> first_isFrozen s \<longrightarrow> pre = []" by blast
  from after_meta_evolves [OF r] obtain post where "trace r = trace s1 @ post"
    by (auto simp: evolves_def)
  with pre m show ?thesis by auto
qed

text \<open>
  C4 fails at exactly 1000 ms: with \<open>checkoutEveryNms = 1000\<close> and the last
  \<open>FullSnapshot\<close> stamped 1000, an incremental event stamped 2000 is handed to the
  consumer and counted, and no checkpoint follows.
\<close>

theorem time_cadence_at_exactly_1000_counterexample:
  "checkoutEveryNms opts_ms = Some 1000 \<and>
   lastFullSnapshotEvent session_started = Some \<lparr>ev = FullSnapshotEvent 7 0 0, timestamp = 1000\<rparr> \<and>
   type_of (ev (click_at 2000)) = IncrementalSnapshot \<and>
   timestamp (click_at 2000) - 1000 \<ge> 1000 \<and>
   wrappedEmit 5 page_ok opts_ms session_started (click_at 2000) None =
     Some (Returned ()
       (session_started\<lparr>incrementalSnapshotCount := 1,
          trace := trace session_started @ [OnEmit (Plain (click_at 2000)) None]\<rparr>))"
  by (simp add: run_simps example_defs eval_nat_numeral)

text \<open>
  C4, amended. With \<open>checkoutEveryNms = 1000\<close>, the bookkeeping that follows the
  hand-over of an \<open>IncrementalSnapshot\<close> stamped strictly more than 1000 ms after
  the stored \<open>FullSnapshot\<close> is the call \<open>takeFullSnapshot(true)\<close>, which, given
  enough fuel, returns after handing a \<open>Meta\<close> event with \<open>isCheckout = true\<close> to the
  consumer. At 1000 ms or less, and with the count-based cadence not reached, the
  event is only counted.
\<close>

theorem time_cadence:
  assumes "checkoutEveryNms opts = Some 1000"
    and "type_of (ev e) = IncrementalSnapshot"
    and "lastFullSnapshotEvent s = Some f"
  shows "(timestamp e - timestamp f > 1000 \<longrightarrow>
            bookkeeping k en opts s e =
              takeFullSnapshot k en opts
                (s\<lparr>incrementalSnapshotCount := incrementalSnapshotCount s + 1\<rparr>) True \<and>
            (3 * pending_buffers s + 2 \<le> k \<longrightarrow>
               (\<exists>r m pre post. bookkeeping k en opts s e = Some (Returned () r) \<and>
                  type_of (ev m) = Meta \<and>
                  trace r = trace s @ pre @ [OnEmit (deliver opts m) (Some True)] @ post))) \<and>
         (timestamp e - timestamp f \<le> 1000 \<longrightarrow>
            \<not> exceedCount opts (s\<lparr>incrementalSnapshotCount := incrementalSnapshotCount s + 1\<rparr>) \<longrightarrow>
            bookkeeping k en opts s e =
              Some (Returned () (s\<lparr>incrementalSnapshotCount := incrementalSnapshotCount s + 1\<rparr>)))"
proof -
  let ?s3 = "s\<lparr>incrementalSnapshotCount := incrementalSnapshotCount s + 1\<rparr>"
  have et: "exceedTime opts e ?s3 = Inr (timestamp e - timestamp f > 1000)"
    using assms by (simp add: exceedTime_def)
  have late: "bookkeeping k en opts s e = takeFullSnapshot k en opts ?s3 True"
    if "timestamp e - timestamp f > 1000"
    using that assms(2) et by (simp add: bookkeeping_def Let_def)
  have shape: "\<exists>r m pre post. bookkeeping k en opts s e = Some (Returned () r) \<and>
                  type_of (ev m) = Meta \<and>
                  trace r = trace s @ pre @ [OnEmit (deliver opts m) (Some True)] @ post"
    if l: "timestamp e - timestamp f > 1000" and k: "3 * pending_buffers s + 2 \<le> k"
  proof -
    have "pending_buffers ?s3 = pending_buffers s" by (simp add: pending_buffers_def)
    with k have "takeFullSnapshot k en opts ?s3 True \<noteq> None"
      by (intro takeFullSnapshot_total) simp
    then obtain out where out: "takeFullSnapshot k en opts ?s3 True = Some out" by blast
    have "safe opts ?s3" using assms(3) by (simp add: safe_def)
    from takeFullSnapshot_returns [OF this out] obtain r where r: "out = Returned () r" by blast
    from takeFullSnapshot_emits_meta [OF out [unfolded r]]
    obtain m s0 pre post where "meta_event en ?s3 = (m, s0)"
      "trace r = trace ?s3 @ pre @ [OnEmit (deliver opts m) (Some True)] @ post" by blast
    with late [OF l] out r type_of_meta_event show ?thesis by fastforce
  qed
  have early: "bookkeeping k en opts s e = Some (Returned () ?s3)"
    if "timestamp e - timestamp f \<le> 1000" "\<not> exceedCount opts ?s3"
    using that assms(2) et by (simp add: bookkeeping_def Let_def)
  from late shape early show ?thesis by blast
qed


theorem time_cadence_witness:
  "checkoutEveryNms opts_ms = Some 1000 \<and>
   type_of (ev (click_at 2001)) = IncrementalSnapshot \<and>
   lastFullSnapshotEvent session_started = Some \<lparr>ev = FullSnapshotEvent 7 0 0, timestamp = 1000\<rparr> \<and>
   timestamp (click_at 2001) - 1000 > 1000 \<and>
   3 * pending_buffers session_started + 2 \<le> 5 \<and>
   (\<exists>r m pre post.
      bookkeeping 5 page_ok opts_ms session_started (click_at 2001) = Some (Returned () r) \<and>
      type_of (ev m) = Meta \<and>
      trace r = trace session_started @ pre @ [OnEmit (deliver opts_ms m) (Some True)] @ post) \<and>
   timestamp (click_at 2000) - 1000 \<le> 1000 \<and>
   bookkeeping 5 page_ok opts_ms session_started (click_at 2000) =
     Some (Returned () (session_started\<lparr>incrementalSnapshotCount := 1\<rparr>))"
proof -
  let ?f = "\<lparr>ev = FullSnapshotEvent 7 0 0, timestamp = 1000\<rparr>"
  have a: "checkoutEveryNms opts_ms = Some 1000"
    and b: "type_of (ev (click_at t)) = IncrementalSnapshot"
    and c: "lastFullSnapshotEvent session_started = Some ?f"
    and d: "timestamp (click_at 2001) - timestamp ?f > 1000"
    and e: "3 * pending_buffers session_started + 2 \<le> 5"
    and f: "timestamp (click_at 2000) - timestamp ?f \<le> 1000"
    and g: "\<not> exceedCount opts_ms
              (session_started\<lparr>incrementalSnapshotCount := incrementalSnapshotCount session_started + 1\<rparr>)"
    and h: "incrementalSnapshotCount session_started = 0"
    for t
    by (simp_all add: example_defs pending_buffers_def exceedCount_def)
  from time_cadence [OF a b c, of 2001 5 page_ok] d e
  have 1: "\<exists>r m pre post.
      bookkeeping 5 page_ok opts_ms session_started (click_at 2001) = Some (Returned () r) \<and>
      type_of (ev m) = Meta \<and>
      trace r = trace session_started @ pre @ [OnEmit (deliver opts_ms m) (Some True)] @ post"
    by blast
  from time_cadence [OF a b c, of 2000 5 page_ok] f g h
  have 2: "bookkeeping 5 page_ok opts_ms session_started (click_at 2000) =
     Some (Returned () (session_started\<lparr>incrementalSnapshotCount := 1\<rparr>))"
    by simp
  from a b c d e f 1 2 show ?thesis by simp
qed

section \<open>Resuming on activity\<close>




text \<open>
  The emission of that \<open>Meta\<close> event on its own: the first buffer is active, the
  second paused, nothing is resumed, and the event is handed over.
\<close>

lemma mid_resume_example:
  "meta_event page_ok (mid_resume\<lparr>ticks := 4\<rparr>) = (meta_at 4000, mid_resume) \<and>
   map frozen (mutationBuffers mid_resume) = [False, True] \<and>
   wrappedEmit 1 page_ok (opts_nth 1) mid_resume (meta_at 4000) (Some True) =
     Some (Returned () (onEmit (opts_nth 1) (meta_at 4000) (Some True) mid_resume)) \<and>
   map frozen (mutationBuffers (onEmit (opts_nth 1) (meta_at 4000) (Some True) mid_resume))
     = [False, True] \<and>
   trace (onEmit (opts_nth 1) (meta_at 4000) (Some True) mid_resume) =
     trace paused_session @ take 3 (actions_since paused_session resumed_by_click)"
  by (simp add: run_simps example_defs session_simps eval_nat_numeral actions_since_def)



section \<open>The order of a checkpoint\<close>

lemma after_meta_success:
  assumes sn: "snapshot en (snapshots s1) = (Some node, idm)"
    and r: "after_meta k en opts s1 = Some (Returned () r)"
  shows "\<exists>f post.
           ev f = FullSnapshotEvent node
              (initialOffset (pageXOffset en) (fst (documentElement_scroll en))
                 (map_option fst (parentElement_scroll en)) (fst (body_scroll en)))
              (initialOffset (pageYOffset en) (snd (documentElement_scroll en))
                 (map_option snd (parentElement_scroll en)) (snd (body_scroll en))) \<and>
           trace r = trace s1 @ map BufLock (indices s1)
               @ [SnapshotCall, MirrorMapSet idm, OnEmit (deliver opts f) None] @ post \<and>
           (\<forall>i < length (mutationBuffers s1). BufUnlock i \<in> set post)"
proof -
  let ?s2 = "s1\<lparr>mutationBuffers := map (\<lambda>b. b\<lparr>locked := True\<rparr>) (mutationBuffers s1),
        trace := trace s1 @ map BufLock (indices s1) @ [SnapshotCall],
        snapshots := Suc (snapshots s1)\<rparr>"
  let ?s2' = "log_action (MirrorMapSet idm) (?s2\<lparr>mirror_map := idm\<rparr>)"
  from sn r have as: "after_snapshot k en opts node idm ?s2 = Some (Returned () r)"
    by (simp add: after_meta_def call_snapshot_lock_all)
  obtain f s3 where f: "fullSnapshot_event en node ?s2' = (f, s3)"
    by (cases "fullSnapshot_event en node ?s2'")
  let ?s4 = "(onEmit opts f None s3)\<lparr>lastFullSnapshotEvent := Some f, incrementalSnapshotCount := 0\<rparr>"
  from as f obtain r4 where r4: "wrappedEmit k en opts s3 f None = Some r4"
    by (cases "wrappedEmit k en opts s3 f None") (auto simp: after_snapshot_def)
  from safe_after_fullSnapshot [OF type_of_fullSnapshot_event [OF f] r4]
  have r4': "r4 = Returned () ?s4" .
  with as f r4
  have loop: "forEach (buffer_unlock (mutationCb k en opts)) (indices ?s4) ?s4 = Some (Returned () r)"
    by (simp add: after_snapshot_def)
  have s3: "trace s3 = trace s1 @ map BufLock (indices s1) @ [SnapshotCall, MirrorMapSet idm]"
    "length (mutationBuffers s3) = length (mutationBuffers s1)"
    using f by (auto simp: fullSnapshot_event_def wrapEvent_def log_action_def)
  then have s4: "trace ?s4 = trace s1 @ map BufLock (indices s1)
       @ [SnapshotCall, MirrorMapSet idm, OnEmit (deliver opts f) None]"
    "length (mutationBuffers ?s4) = length (mutationBuffers s1)"
    by (simp_all add: onEmit_def log_action_def)
  from forEach_evolves [OF buffer_unlock_evolves_all loop]
  have "trace r = trace ?s4 @ actions_since ?s4 r"
    by (simp add: actions_since_evolves)
  moreover from forEach_marks [OF buffer_unlock_evolves_all buffer_unlock_marks loop] s4(2)
  have "\<forall>i < length (mutationBuffers s1). BufUnlock i \<in> set (actions_since ?s4 r)"
    by (simp add: indices_def)
  moreover have "ev f = FullSnapshotEvent node
              (initialOffset (pageXOffset en) (fst (documentElement_scroll en))
                 (map_option fst (parentElement_scroll en)) (fst (body_scroll en)))
              (initialOffset (pageYOffset en) (snd (documentElement_scroll en))
                 (map_option snd (parentElement_scroll en)) (snd (body_scroll en)))"
    using f by (auto simp: fullSnapshot_event_def wrapEvent_def)
  ultimately show ?thesis using s4(1) by (metis append.assoc)
qed

text \<open>
  C6. Every checkpoint that returns and whose serializer call returned a node
  performed its steps in this order: the \<open>Meta\<close> event with the current location and
  viewport is handed to the consumer (after the resume actions \<open>pre\<close> of its own
  emission, none unless the first buffer was paused); every buffer is locked; the
  serializer is called; \<open>mirror.map\<close> is assigned; the \<open>FullSnapshot\<close> with the node
  and the scroll offset is handed to the consumer; and only then every buffer is
  unlocked, so what the locked buffers flush comes after the \<open>FullSnapshot\<close>. Where
  nothing can throw and the serializer always returns a node, the checkpoint does
  return so, given enough fuel.
\<close>

theorem checkpoint_order:
  "(\<forall>m s0 s1 node idm r.
      meta_event en s = (m, s0) \<and>
      wrappedEmit k en opts s0 m (Some c) = Some (Returned () s1) \<and>
      snapshot en (snapshots s1) = (Some node, idm) \<and>
      takeFullSnapshot (Suc k) en opts s c = Some (Returned () r) \<longrightarrow>
      (\<exists>pre f post.
         ev m = MetaEvent (location_href en) (windowWidth en) (windowHeight en) \<and>
         ev f = FullSnapshotEvent node
              (initialOffset (pageXOffset en) (fst (documentElement_scroll en))
                 (map_option fst (parentElement_scroll en)) (fst (body_scroll en)))
              (initialOffset (pageYOffset en) (snd (documentElement_scroll en))
                 (map_option snd (parentElement_scroll en)) (snd (body_scroll en))) \<and>
         trace r = trace s @ pre @ [OnEmit (deliver opts m) (Some c)] @ map BufLock (indices s)
             @ [SnapshotCall, MirrorMapSet idm, OnEmit (deliver opts f) None] @ post \<and>
         (\<forall>i < length (mutationBuffers s). BufUnlock i \<in> set post) \<and>
         (\<not> first_isFrozen s \<longrightarrow> pre = []))) \<and>
   (safe opts s \<and> (\<forall>j. fst (snapshot en j) \<noteq> None) \<and> 3 * pending_buffers s + 1 \<le> k \<longrightarrow>
      (\<exists>m s0 s1 node idm r.
         meta_event en s = (m, s0) \<and>
         wrappedEmit k en opts s0 m (Some c) = Some (Returned () s1) \<and>
         snapshot en (snapshots s1) = (Some node, idm) \<and>
         takeFullSnapshot (Suc k) en opts s c = Some (Returned () r)))"
proof (intro conjI allI impI)
  fix m s0 s1 node idm r
  assume h: "meta_event en s = (m, s0) \<and>
      wrappedEmit k en opts s0 m (Some c) = Some (Returned () s1) \<and>
      snapshot en (snapshots s1) = (Some node, idm) \<and>
      takeFullSnapshot (Suc k) en opts s c = Some (Returned () r)"
  then have m: "meta_event en s = (m, s0)"
    and s1: "wrappedEmit k en opts s0 m (Some c) = Some (Returned () s1)"
    and sn: "snapshot en (snapshots s1) = (Some node, idm)"
    and r: "takeFullSnapshot (Suc k) en opts s c = Some (Returned () r)"
    by blast+
  from r m s1 have am: "after_meta k en opts s1 = Some (Returned () r)"
    by (simp add: takeFullSnapshot_Suc)
  from meta_emission [OF m s1] obtain pre
    where pre: "trace s1 = trace s @ pre @ [OnEmit (deliver opts m) (Some c)]"
      "\<not> first_isFrozen s \<longrightarrow> pre = []" by blast
  have "evolves s s1"
    using evolves_trans [OF evolves_meta_event [OF m] wrappedEmit_evolves [OF s1]] by simp
  then have len: "length (mutationBuffers s1) = length (mutationBuffers s)"
    by (simp add: evolves_def)
  then have ind: "indices s1 = indices s" by (simp add: indices_def)
  have evm: "ev m = MetaEvent (location_href en) (windowWidth en) (windowHeight en)"
    using m by (auto simp: meta_event_def wrapEvent_def)
  from after_meta_success [OF sn am] obtain f post
    where "ev f = FullSnapshotEvent node
              (initialOffset (pageXOffset en) (fst (documentElement_scroll en))
                 (map_option fst (parentElement_scroll en)) (fst (body_scroll en)))
              (initialOffset (pageYOffset en) (snd (documentElement_scroll en))
                 (map_option snd (parentElement_scroll en)) (snd (body_scroll en)))"
      "trace r = trace s1 @ map BufLock (indices s1)
               @ [SnapshotCall, MirrorMapSet idm, OnEmit (deliver opts f) None] @ post"
      "\<forall>i < length (mutationBuffers s1). BufUnlock i \<in> set post"
    by blast
  with pre len ind evm
  show "\<exists>pre f post.
         ev m = MetaEvent (location_href en) (windowWidth en) (windowHeight en) \<and>
         ev f = FullSnapshotEvent node
              (initialOffset (pageXOffset en) (fst (documentElement_scroll en))
                 (map_option fst (parentElement_scroll en)) (fst (body_scroll en)))
              (initialOffset (pageYOffset en) (snd (documentElement_scroll en))
                 (map_option snd (parentElement_scroll en)) (snd (body_scroll en))) \<and>
         trace r = trace s @ pre @ [OnEmit (deliver opts m) (Some c)] @ map BufLock (indices s)
             @ [SnapshotCall, MirrorMapSet idm, OnEmit (deliver opts f) None] @ post \<and>
         (\<forall>i < length (mutationBuffers s). BufUnlock i \<in> set post) \<and>
         (\<not> first_isFrozen s \<longrightarrow> pre = [])"
    by (intro exI [of _ pre] exI [of _ f] exI [of _ post]) simp
next
  assume h: "safe opts s \<and> (\<forall>j. fst (snapshot en j) \<noteq> None) \<and> 3 * pending_buffers s + 1 \<le> k"
  then have "takeFullSnapshot (Suc k) en opts s c \<noteq> None"
    by (intro takeFullSnapshot_total) simp
  then obtain out where out: "takeFullSnapshot (Suc k) en opts s c = Some out" by blast
  from h takeFullSnapshot_returns [OF _ out] obtain r where r: "out = Returned () r" by blast
  from out [unfolded r] obtain k' m s0 s1 where "Suc k = Suc k'" "meta_event en s = (m, s0)"
    "wrappedEmit k' en opts s0 m (Some c) = Some (Returned () s1)"
    by (rule takeFullSnapshot_Returned)
  moreover from h obtain node idm where "snapshot en (snapshots s1) = (Some node, idm)"
    by (metis option.exhaust prod.collapse)
  ultimately show "\<exists>m s0 s1 node idm r.
         meta_event en s = (m, s0) \<and>
         wrappedEmit k en opts s0 m (Some c) = Some (Returned () s1) \<and>
         snapshot en (snapshots s1) = (Some node, idm) \<and>
         takeFullSnapshot (Suc k) en opts s c = Some (Returned () r)"
    using out r by auto
qed

theorem checkpoint_order_witness:
  "meta_event page_ok two_documents = (meta_at 2000, two_documents\<lparr>ticks := 3\<rparr>) \<and>
   wrappedEmit 4 page_ok opts_plain (two_documents\<lparr>ticks := 3\<rparr>) (meta_at 2000) (Some True)
     = Some (Returned () (onEmit opts_plain (meta_at 2000) (Some True) (two_documents\<lparr>ticks := 3\<rparr>))) \<and>
   snapshot page_ok
       (snapshots (onEmit opts_plain (meta_at 2000) (Some True) (two_documents\<lparr>ticks := 3\<rparr>)))
     = (Some 7, 42) \<and>
   takeFullSnapshot 5 page_ok opts_plain two_documents True
     = Some (Returned () two_documents_checkpointed) \<and>
   (\<exists>f post.
      ev f = FullSnapshotEvent 7 0 0 \<and>
      trace two_documents_checkpointed =
        trace two_documents @ [OnEmit (Plain (meta_at 2000)) (Some True)] @ [BufLock 0, BufLock 1]
          @ [SnapshotCall, MirrorMapSet 42, OnEmit (Plain f) None] @ post \<and>
      BufUnlock 0 \<in> set post \<and> BufUnlock 1 \<in> set post) \<and>
   safe opts_plain two_documents \<and> 3 * pending_buffers two_documents + 1 \<le> 4"
proof -
  let ?s0 = "two_documents\<lparr>ticks := 3\<rparr>"
  let ?s1 = "onEmit opts_plain (meta_at 2000) (Some True) ?s0"
  have a: "meta_event page_ok two_documents = (meta_at 2000, ?s0)"
    by (simp add: run_simps example_defs)
  have b: "wrappedEmit 4 page_ok opts_plain ?s0 (meta_at 2000) (Some True) = Some (Returned () ?s1)"
    by (simp add: run_simps example_defs eval_nat_numeral)
  have c: "snapshot page_ok (snapshots ?s1) = (Some 7, 42)"
    by (simp add: page_ok_def)
  have d: "takeFullSnapshot (Suc 4) page_ok opts_plain two_documents True
     = Some (Returned () two_documents_checkpointed)"
    by (simp add: run_simps example_defs eval_nat_numeral)
  have e: "safe opts_plain two_documents" "3 * pending_buffers two_documents + 1 \<le> 4"
    "\<not> first_isFrozen two_documents" "length (mutationBuffers two_documents) = 2"
    "indices two_documents = [0, 1]" "deliver opts_plain = Plain"
    by (auto simp: safe_def example_defs pending_buffers_def first_isFrozen_def indices_def
        deliver_def)
  from checkpoint_order [of page_ok two_documents 4 opts_plain True] a b c d
  obtain pre f post where
    "ev f = FullSnapshotEvent 7
              (initialOffset (pageXOffset page_ok) (fst (documentElement_scroll page_ok))
                 (map_option fst (parentElement_scroll page_ok)) (fst (body_scroll page_ok)))
              (initialOffset (pageYOffset page_ok) (snd (documentElement_scroll page_ok))
                 (map_option snd (parentElement_scroll page_ok)) (snd (body_scroll page_ok)))"
    "trace two_documents_checkpointed =
       trace two_documents @ pre @ [OnEmit (deliver opts_plain (meta_at 2000)) (Some True)]
         @ map BufLock (indices two_documents)
         @ [SnapshotCall, MirrorMapSet 42, OnEmit (deliver opts_plain f) None] @ post"
    "\<forall>i < length (mutationBuffers two_documents). BufUnlock i \<in> set post"
    "\<not> first_isFrozen two_documents \<longrightarrow> pre = []"
    by blast
  with e have "ev f = FullSnapshotEvent 7 0 0 \<and>
      trace two_documents_checkpointed =
        trace two_documents @ [OnEmit (Plain (meta_at 2000)) (Some True)] @ [BufLock 0, BufLock 1]
          @ [SnapshotCall, MirrorMapSet 42, OnEmit (Plain f) None] @ post \<and>
      BufUnlock 0 \<in> set post \<and> BufUnlock 1 \<in> set post"
    by (simp add: page_ok_def initialOffset_def)
  then have "\<exists>f post.
      ev f = FullSnapshotEvent 7 0 0 \<and>
      trace two_documents_checkpointed =
        trace two_documents @ [OnEmit (Plain (meta_at 2000)) (Some True)] @ [BufLock 0, BufLock 1]
          @ [SnapshotCall, MirrorMapSet 42, OnEmit (Plain f) None] @ post \<and>
      BufUnlock 0 \<in> set post \<and> BufUnlock 1 \<in> set post"
    by blast
  moreover have "Suc 4 = 5" by simp
  ultimately show ?thesis using a b c d e(1,2) by simp
qed

section \<open>The count-based cadence\<close>

text \<open>
  C5 fails when the serializer returns no tree: with \<open>checkoutEveryNth = 1\<close> the first
  incremental event triggers a checkpoint that emits \<open>Meta\<close> only, and the second
  incremental event is handed to the consumer with no \<open>FullSnapshot\<close> before it.
\<close>

theorem count_cadence_failed_serializer_counterexample:
  "checkoutEveryNth (opts_nth 1) = Some 1 \<and>
   wrappedEmit 5 page_failing (opts_nth 1) session_started (click_at 3000) None
     = Some (Returned () after_first_click) \<and>
   wrappedEmit 5 page_failing (opts_nth 1) after_first_click (click_at 4000) None
     = Some (Returned () after_second_click) \<and>
   actions_since session_started after_second_click =
     [OnEmit (Plain (click_at 3000)) None,
      OnEmit (Plain \<lparr>ev = MetaEvent ''https://example.org/'' 800 600, timestamp = 2000\<rparr>) (Some True),
      BufLock 0, SnapshotCall, ConsoleWarn (WarnMessage ''Failed to snapshot the document''),
      OnEmit (Plain (click_at 4000)) None,
      OnEmit (Plain \<lparr>ev = MetaEvent ''https://example.org/'' 800 600, timestamp = 3000\<rparr>) (Some True),
      BufLock 0, SnapshotCall, ConsoleWarn (WarnMessage ''Failed to snapshot the document'')]"
  by (simp add: run_simps example_defs eval_nat_numeral actions_since_def)

text \<open>
  The pair does not come first either when the first buffer is paused as the
  checkpoint starts: the emission of \<open>Meta\<close> resumes the buffers, and the mutations
  the first buffer withheld are handed to the consumer before \<open>Meta\<close>. Here the
  page was frozen, the main document reported a mutation, and an embedded document
  was loaded; a tree mutation of the embedded document is the one incremental event
  that \<open>checkoutEveryNth = 1\<close> allows.
\<close>

lemma count_cadence_paused_example:
  "buffer_processMutations (mutationCb 1 page_ok (opts_nth 1)) 0 [5] (freezePage session_started)
     = Some (Returned ()
         (set_buffer 0 \<lparr>frozen = True, locked = False, pending = [5]\<rparr> (freezePage session_started))) \<and>
   iframe_load_listener 1
       (set_buffer 0 \<lparr>frozen = True, locked = False, pending = [5]\<rparr> (freezePage session_started))
     = first_paused \<and>
   first_isFrozen first_paused \<and>
   (\<exists>r. buffer_processMutations (mutationCb 9 page_ok (opts_nth 1)) 1 [9] first_paused
          = Some (Returned () r) \<and>
     take 3 (actions_since first_paused r) =
       [OnEmit (Plain (mutation_event [9] 2000)) None,
        BufUnfreeze 0,
        OnEmit (Plain (mutation_event [5] 4000)) None])"
  by (simp add: run_simps example_defs session_simps handlers_push_def observe_def
      eval_nat_numeral actions_since_def)

text \<open>
  Nor is any checkpoint taken when the time comparison throws. With both cadences
  configured and a first snapshot that failed, the first incremental event is handed
  to the consumer, the counter reaches \<open>1\<close>, and line 185 throws before
  \<open>takeFullSnapshot\<close> is called.
\<close>

lemma count_cadence_unsnapped_example:
  "checkoutEveryNth opts_both = Some 1 \<and> checkoutEveryNms opts_both = Some 1000 \<and>
   record_start 2 page_failing opts_both world0 = Some (Returned (Some Disposer) session_unsnapped) \<and>
   observerCb 5 page_failing opts_both MouseInteraction [1] session_unsnapped =
     Some (Thrown (TypeError ''Cannot read property timestamp of undefined'')
       (session_unsnapped\<lparr>incrementalSnapshotCount := 1, ticks := 2,
          trace := trace session_unsnapped @
            [OnEmit (Plain \<lparr>ev = IncrementalSnapshotEvent MouseInteraction [1], timestamp = 1000\<rparr>)
               None]\<rparr>))"
  by (simp add: run_simps example_defs eval_nat_numeral)

text \<open>Runs of the observers below the count, and the event that reaches it.\<close>

lemma exceedTime_cong:
  "lastFullSnapshotEvent s' = lastFullSnapshotEvent s \<Longrightarrow> exceedTime opts e s' = exceedTime opts e s"
  by (simp add: exceedTime_def split: option.splits)

lemma on_time_cong:
  "lastFullSnapshotEvent s' = lastFullSnapshotEvent s \<Longrightarrow>
     on_time en opts s' t xs = on_time en opts s t xs"
  by (induction xs arbitrary: t) (simp_all add: exceedTime_cong [of s' s])

lemma on_time_append:
  "on_time en opts s t (ys @ zs) \<longleftrightarrow>
     on_time en opts s t ys \<and> on_time en opts s (t + length ys) zs"
  by (induction ys arbitrary: t) auto

lemma observerCb_below:
  assumes nth: "checkoutEveryNth opts = Some N" and nf: "\<not> first_isFrozen s"
    and below: "incrementalSnapshotCount s + 1 < N"
    and time: "exceedTime opts \<lparr>ev = IncrementalSnapshotEvent src d, timestamp = clock en (ticks s)\<rparr> s
                 = Inr False"
  shows "observerCb (Suc k) en opts src d s =
     Some (Returned ()
       (s\<lparr>incrementalSnapshotCount := incrementalSnapshotCount s + 1, ticks := Suc (ticks s),
          trace := trace s @
            [OnEmit (deliver opts \<lparr>ev = IncrementalSnapshotEvent src d, timestamp = clock en (ticks s)\<rparr>)
               None]\<rparr>))"
proof -
  let ?e = "\<lparr>ev = IncrementalSnapshotEvent src d, timestamp = clock en (ticks s)\<rparr>"
  let ?s' = "s\<lparr>ticks := Suc (ticks s)\<rparr>"
  have nr: "\<not> resumes ?s' ?e" using nf by (simp add: resumes_def first_isFrozen_def)
  let ?s2 = "onEmit opts ?e None ?s'"
  let ?s3 = "?s2\<lparr>incrementalSnapshotCount := incrementalSnapshotCount ?s2 + 1\<rparr>"
  have "exceedTime opts ?e ?s3 = exceedTime opts ?e s"
    by (rule exceedTime_cong) (simp add: onEmit_def log_action_def)
  with time have t: "exceedTime opts ?e ?s3 = Inr False" by simp
  have c: "\<not> exceedCount opts ?s3"
    using nth below by (simp add: exceedCount_def onEmit_def log_action_def)
  have "bookkeeping k en opts ?s2 ?e = Some (Returned () ?s3)"
    using t c by (simp add: bookkeeping_def Let_def)
  then have "wrappedEmit (Suc k) en opts ?s' ?e None = Some (Returned () ?s3)"
    by (simp add: wrappedEmit_Suc resume_skip [OF nr])
  then show ?thesis
    by (simp add: observerCb_def wrapEvent_def onEmit_def log_action_def)
qed

lemma observer_run_below:
  assumes nth: "checkoutEveryNth opts = Some N"
  shows "\<not> first_isFrozen s \<Longrightarrow> incrementalSnapshotCount s + int (length xs) < N \<Longrightarrow>
     on_time en opts s (ticks s) xs \<Longrightarrow>
     observer_run (Suc k) en opts xs s =
       Some (Returned ()
         (s\<lparr>incrementalSnapshotCount := incrementalSnapshotCount s + int (length xs),
            ticks := ticks s + length xs,
            trace := trace s @ emitted en opts (ticks s) xs\<rparr>))"
proof (induction xs arbitrary: s)
  case Nil
  then show ?case by simp
next
  case (Cons x xs)
  let ?s1 = "s\<lparr>incrementalSnapshotCount := incrementalSnapshotCount s + 1, ticks := Suc (ticks s),
          trace := trace s @
            [OnEmit (deliver opts \<lparr>ev = IncrementalSnapshotEvent (fst x) (snd x),
                                   timestamp = clock en (ticks s)\<rparr>) None]\<rparr>"
  from Cons.prems have b: "incrementalSnapshotCount s + 1 < N" by simp
  from Cons.prems(3)
  have t: "exceedTime opts \<lparr>ev = IncrementalSnapshotEvent (fst x) (snd x),
                            timestamp = clock en (ticks s)\<rparr> s = Inr False"
    and ot: "on_time en opts s (Suc (ticks s)) xs"
    by simp_all
  from observerCb_below [OF nth Cons.prems(1) b t]
  have step: "observerCb (Suc k) en opts (fst x) (snd x) s = Some (Returned () ?s1)" .
  have nf: "\<not> first_isFrozen ?s1" using Cons.prems(1) by (simp add: first_isFrozen_def)
  have bl: "incrementalSnapshotCount ?s1 + int (length xs) < N" using Cons.prems(2) by simp
  have "on_time en opts ?s1 (Suc (ticks s)) xs = on_time en opts s (Suc (ticks s)) xs"
    by (rule on_time_cong) simp
  with ot have ot1: "on_time en opts ?s1 (ticks ?s1) xs" by simp
  from Cons.IH [OF nf bl ot1] step show ?case by simp
qed

lemma observer_run_append:
  "observer_run k en opts (ys @ zs) s =
     (case observer_run k en opts ys s of
        None \<Rightarrow> None
      | Some (Thrown err s') \<Rightarrow> Some (Thrown err s')
      | Some (Returned u s') \<Rightarrow> observer_run k en opts zs s')"
  by (induction ys arbitrary: s) (auto split: option.splits outcome.splits)

lemma emitted_append:
  "emitted en opts t (ys @ zs) = emitted en opts t ys @ emitted en opts (t + length ys) zs"
  by (induction ys arbitrary: t) simp_all

lemma unlock_nothing_pending:
  "\<forall>b \<in> set (mutationBuffers s). pending b = [] \<Longrightarrow>
   forEach (buffer_unlock cb) is s = Some (Returned () r) \<Longrightarrow>
     incrementalSnapshotCount r = incrementalSnapshotCount s \<and>
     lastFullSnapshotEvent r = lastFullSnapshotEvent s \<and>
     trace r = trace s @ map BufUnlock (filter (\<lambda>i. i < length (mutationBuffers s)) is)"
proof (induction "is" arbitrary: s)
  case Nil
  then show ?case by simp
next
  case (Cons i "is")
  show ?case
  proof (cases "i < length (mutationBuffers s)")
    case False
    with Cons show ?thesis by simp
  next
    case True
    let ?s1 = "log_action (BufUnlock i) (set_buffer i ((mutationBuffers s ! i)\<lparr>locked := False\<rparr>) s)"
    from Cons.prems(1) True have p: "pending (mutationBuffers s ! i) = []" by simp
    with True have step: "buffer_unlock cb i s = Some (Returned () ?s1)"
      by (simp add: buffer_unlock_def buffer_emit_def Let_def log_action_def set_buffer_def)
    with Cons.prems(2) True have rest: "forEach (buffer_unlock cb) is ?s1 = Some (Returned () r)"
      by simp
    have "set (mutationBuffers ?s1)
            \<subseteq> insert ((mutationBuffers s ! i)\<lparr>locked := False\<rparr>) (set (mutationBuffers s))"
      by (simp add: log_action_def set_buffer_def set_update_subset_insert)
    moreover have "pending ((mutationBuffers s ! i)\<lparr>locked := False\<rparr>) = []" using p by simp
    ultimately have all: "\<forall>b \<in> set (mutationBuffers ?s1). pending b = []"
      using Cons.prems(1) by blast
    from Cons.IH [OF all rest] True show ?thesis
      by (simp add: log_action_def set_buffer_def)
  qed
qed

lemma pending_buffers_0: "pending_buffers s = 0 \<longleftrightarrow> (\<forall>b \<in> set (mutationBuffers s). pending b = [])"
  by (auto simp: pending_buffers_def filter_empty_conv)

lemma after_meta_reset:
  assumes sn: "snapshot en (snapshots s1) = (Some node, idm)"
    and r: "after_meta k en opts s1 = Some (Returned () r)"
  shows "\<exists>f s4.
           type_of (ev f) = FullSnapshot \<and>
           incrementalSnapshotCount s4 = 0 \<and> lastFullSnapshotEvent s4 = Some f \<and>
           trace s4 = trace s1 @ map BufLock (indices s1)
               @ [SnapshotCall, MirrorMapSet idm, OnEmit (deliver opts f) None] \<and>
           map pending (mutationBuffers s4) = map pending (mutationBuffers s1) \<and>
           forEach (buffer_unlock (mutationCb k en opts)) (indices s1) s4 = Some (Returned () r)"
proof -
  let ?s2 = "s1\<lparr>mutationBuffers := map (\<lambda>b. b\<lparr>locked := True\<rparr>) (mutationBuffers s1),
        trace := trace s1 @ map BufLock (indices s1) @ [SnapshotCall],
        snapshots := Suc (snapshots s1)\<rparr>"
  let ?s2' = "log_action (MirrorMapSet idm) (?s2\<lparr>mirror_map := idm\<rparr>)"
  from sn r have as: "after_snapshot k en opts node idm ?s2 = Some (Returned () r)"
    by (simp add: after_meta_def call_snapshot_lock_all)
  obtain f s3 where f: "fullSnapshot_event en node ?s2' = (f, s3)"
    by (cases "fullSnapshot_event en node ?s2'")
  let ?s4 = "(onEmit opts f None s3)\<lparr>lastFullSnapshotEvent := Some f, incrementalSnapshotCount := 0\<rparr>"
  from as f obtain r4 where r4: "wrappedEmit k en opts s3 f None = Some r4"
    by (cases "wrappedEmit k en opts s3 f None") (auto simp: after_snapshot_def)
  from safe_after_fullSnapshot [OF type_of_fullSnapshot_event [OF f] r4]
  have r4': "r4 = Returned () ?s4" .
  with as f r4
  have loop: "forEach (buffer_unlock (mutationCb k en opts)) (indices ?s4) ?s4 = Some (Returned () r)"
    by (simp add: after_snapshot_def)
  have s3: "trace s3 = trace s1 @ map BufLock (indices s1) @ [SnapshotCall, MirrorMapSet idm]"
    "mutationBuffers s3 = map (\<lambda>b. b\<lparr>locked := True\<rparr>) (mutationBuffers s1)"
    using f by (auto simp: fullSnapshot_event_def wrapEvent_def log_action_def)
  then have s4: "trace ?s4 = trace s1 @ map BufLock (indices s1)
       @ [SnapshotCall, MirrorMapSet idm, OnEmit (deliver opts f) None]"
    "mutationBuffers ?s4 = map (\<lambda>b. b\<lparr>locked := True\<rparr>) (mutationBuffers s1)"
    by (simp_all add: onEmit_def log_action_def)
  from s4(2) have ind: "indices ?s4 = indices s1" by (simp add: indices_def)
  from s4(2) have pend: "map pending (mutationBuffers ?s4) = map pending (mutationBuffers s1)"
    by (simp add: comp_def)
  have c0: "incrementalSnapshotCount ?s4 = 0" "lastFullSnapshotEvent ?s4 = Some f" by simp_all
  from loop ind have loop': "forEach (buffer_unlock (mutationCb k en opts)) (indices s1) ?s4 = Some (Returned () r)"
    by simp
  show ?thesis
    using type_of_fullSnapshot_event [OF f] c0 s4(1) pend loop'
    by (intro exI [of _ f] exI [of _ ?s4] conjI)
qed

lemma observerCb_reaches:
  assumes nth: "checkoutEveryNth opts = Some N" and pos: "0 < N"
    and nf: "\<not> first_isFrozen s" and reach: "N \<le> incrementalSnapshotCount s + 1"
    and sf: "safe opts s"
    and sn: "snapshot en (snapshots s) = (Some node, idm)"
    and fuel: "3 * pending_buffers s + 1 \<le> k"
  shows "\<exists>r m f s4.
     observerCb (Suc (Suc k)) en opts src d s = Some (Returned () r) \<and>
     type_of (ev m) = Meta \<and> type_of (ev f) = FullSnapshot \<and>
     trace s4 = trace s
        @ [OnEmit (deliver opts \<lparr>ev = IncrementalSnapshotEvent src d, timestamp = clock en (ticks s)\<rparr>)
             None,
           OnEmit (deliver opts m) (Some True)]
        @ map BufLock (indices s)
        @ [SnapshotCall, MirrorMapSet idm, OnEmit (deliver opts f) None] \<and>
     incrementalSnapshotCount s4 = 0 \<and> lastFullSnapshotEvent s4 = Some f \<and>
     map pending (mutationBuffers s4) = map pending (mutationBuffers s) \<and>
     forEach (buffer_unlock (mutationCb k en opts)) (indices s) s4 = Some (Returned () r)"
proof -
  let ?e = "\<lparr>ev = IncrementalSnapshotEvent src d, timestamp = clock en (ticks s)\<rparr>"
  let ?s' = "s\<lparr>ticks := Suc (ticks s)\<rparr>"
  have nr: "\<not> resumes ?s' ?e" using nf by (simp add: resumes_def first_isFrozen_def)
  let ?s2 = "onEmit opts ?e None ?s'"
  let ?s3 = "?s2\<lparr>incrementalSnapshotCount := incrementalSnapshotCount ?s2 + 1\<rparr>"
  have s3: "safe opts ?s3" using sf by (simp add: safe_def onEmit_def log_action_def)
  from exceedTime_safe [OF s3] obtain late where late: "exceedTime opts ?e ?s3 = Inr late" by blast
  have c: "exceedCount opts ?s3"
    using nth pos reach by (simp add: exceedCount_def onEmit_def log_action_def)
  have bk: "bookkeeping (Suc k) en opts ?s2 ?e = takeFullSnapshot (Suc k) en opts ?s3 True"
    using late c by (simp add: bookkeeping_def Let_def)
  have cb: "observerCb (Suc (Suc k)) en opts src d s = takeFullSnapshot (Suc k) en opts ?s3 True"
    using bk by (simp add: observerCb_def wrapEvent_def wrappedEmit_Suc resume_skip [OF nr])
  have facts: "pending_buffers ?s3 = pending_buffers s" "snapshots ?s3 = snapshots s"
    "mutationBuffers ?s3 = mutationBuffers s"
    "trace ?s3 = trace s @ [OnEmit (deliver opts ?e) None]"
    by (simp_all add: pending_buffers_def onEmit_def log_action_def)
  with fuel have "takeFullSnapshot (Suc k) en opts ?s3 True \<noteq> None"
    by (intro takeFullSnapshot_total) simp
  then obtain out where out: "takeFullSnapshot (Suc k) en opts ?s3 True = Some out" by blast
  from takeFullSnapshot_returns [OF s3 out] obtain r where r: "out = Returned () r" by blast
  from out [unfolded r] obtain k' m s0 s1 where k': "Suc k = Suc k'"
    and m: "meta_event en ?s3 = (m, s0)"
    and s1: "wrappedEmit k' en opts s0 m (Some True) = Some (Returned () s1)"
    and am: "after_meta k' en opts s1 = Some (Returned () r)"
    by (rule takeFullSnapshot_Returned)
  from k' have kk: "k' = k" by simp
  have nf3: "\<not> first_isFrozen ?s3" using nf facts(3) by (simp add: first_isFrozen_def)
  from meta_emission [OF m s1] nf3
  have tr: "trace s1 = trace ?s3 @ [OnEmit (deliver opts m) (Some True)]"
    and eq: "s1 = onEmit opts m (Some True) s0" by auto
  from eq m facts have s1f: "snapshots s1 = snapshots s" "mutationBuffers s1 = mutationBuffers s"
    by (auto simp: meta_event_def wrapEvent_def onEmit_def log_action_def)
  with sn have sn1: "snapshot en (snapshots s1) = (Some node, idm)"
    and ind: "indices s1 = indices s" by (simp_all add: indices_def)
  from after_meta_reset [OF sn1 am] obtain f s4 where
    f: "type_of (ev f) = FullSnapshot"
    and c0: "incrementalSnapshotCount s4 = 0" "lastFullSnapshotEvent s4 = Some f"
    and t4: "trace s4 = trace s1 @ map BufLock (indices s1)
               @ [SnapshotCall, MirrorMapSet idm, OnEmit (deliver opts f) None]"
    and p4: "map pending (mutationBuffers s4) = map pending (mutationBuffers s1)"
    and loop: "forEach (buffer_unlock (mutationCb k' en opts)) (indices s1) s4 = Some (Returned () r)"
    by blast
  have t4': "trace s4 = trace s @ [OnEmit (deliver opts ?e) None, OnEmit (deliver opts m) (Some True)]
        @ map BufLock (indices s) @ [SnapshotCall, MirrorMapSet idm, OnEmit (deliver opts f) None]"
    using t4 tr facts(4) ind by simp
  have p4': "map pending (mutationBuffers s4) = map pending (mutationBuffers s)"
    using p4 s1f(2) by simp
  have loop': "forEach (buffer_unlock (mutationCb k en opts)) (indices s) s4 = Some (Returned () r)"
    using loop kk ind by simp
  have run: "observerCb (Suc (Suc k)) en opts src d s = Some (Returned () r)"
    using cb out r by simp
  show ?thesis
    using run type_of_meta_event [OF m] f t4' c0 p4' loop'
    by (intro exI [of _ r] exI [of _ m] exI [of _ f] exI [of _ s4] conjI)
qed

lemma unlock_loop_after_reset:
  assumes p4: "map pending (mutationBuffers s4) = map pending (mutationBuffers s)"
    and loop: "forEach (buffer_unlock (mutationCb k en opts)) (indices s) s4 = Some (Returned () r)"
  shows "\<exists>post. trace r = trace s4 @ post \<and>
           (pending_buffers s = 0 \<longrightarrow>
              post = map BufUnlock (indices s) \<and>
              incrementalSnapshotCount r = incrementalSnapshotCount s4 \<and>
              lastFullSnapshotEvent r = lastFullSnapshotEvent s4)"
proof (cases "pending_buffers s = 0")
  case False
  from forEach_evolves [OF buffer_unlock_evolves_all loop]
  have "trace r = trace s4 @ actions_since s4 r"
    by (simp add: actions_since_evolves)
  with False show ?thesis by (intro exI [of _ "actions_since s4 r"]) simp
next
  case True
  from p4 have len: "length (mutationBuffers s4) = length (mutationBuffers s)"
    by (rule map_eq_imp_length_eq)
  from True have "\<forall>b \<in> set (mutationBuffers s). pending b = []" by (simp add: pending_buffers_0)
  then have "\<forall>x \<in> set (map pending (mutationBuffers s)). x = []" by simp
  then have "\<forall>x \<in> set (map pending (mutationBuffers s4)). x = []" unfolding p4 .
  then have all: "\<forall>b \<in> set (mutationBuffers s4). pending b = []" by simp
  have flt: "filter (\<lambda>i. i < length (mutationBuffers s4)) (indices s) = indices s"
    unfolding len indices_def by simp
  from unlock_nothing_pending [OF all loop]
  have "trace r = trace s4 @ map BufUnlock (indices s)"
    "incrementalSnapshotCount r = incrementalSnapshotCount s4"
    "lastFullSnapshotEvent r = lastFullSnapshotEvent s4"
    unfolding flt by simp_all
  then show ?thesis by (intro exI [of _ "map BufUnlock (indices s)"]) simp
qed

lemma observer_run_reaches:
  assumes nth: "checkoutEveryNth opts = Some N" and pos: "0 < N"
    and ne: "xs \<noteq> []" and cnt: "incrementalSnapshotCount s + int (length xs) = N"
    and ot: "on_time en opts s (ticks s) xs"
    and nf: "\<not> first_isFrozen s"
    and sn: "snapshot en (snapshots s) = (Some node, idm)"
    and fuel: "3 * pending_buffers s + 1 \<le> k"
  shows "\<exists>r m f s4.
     observer_run (Suc (Suc k)) en opts xs s = Some (Returned () r) \<and>
     type_of (ev m) = Meta \<and> type_of (ev f) = FullSnapshot \<and>
     trace s4 = trace s @ emitted en opts (ticks s) xs @ [OnEmit (deliver opts m) (Some True)]
        @ map BufLock (indices s)
        @ [SnapshotCall, MirrorMapSet idm, OnEmit (deliver opts f) None] \<and>
     incrementalSnapshotCount s4 = 0 \<and> lastFullSnapshotEvent s4 = Some f \<and>
     forEach (buffer_unlock (mutationCb k en opts)) (indices s) s4 = Some (Returned () r) \<and>
     (\<exists>post. trace r = trace s4 @ post \<and>
        (pending_buffers s = 0 \<longrightarrow>
           post = map BufUnlock (indices s) \<and> incrementalSnapshotCount r = 0 \<and>
           lastFullSnapshotEvent r = Some f))"
proof -
  from ne obtain ys x where xs: "xs = ys @ [x]" by (cases xs rule: rev_cases) auto
  let ?s1 = "s\<lparr>incrementalSnapshotCount := incrementalSnapshotCount s + int (length ys),
            ticks := ticks s + length ys,
            trace := trace s @ emitted en opts (ticks s) ys\<rparr>"
  from cnt xs have below: "incrementalSnapshotCount s + int (length ys) < N" by simp
  from ot xs have ot1: "on_time en opts s (ticks s) ys"
    and otx: "exceedTime opts \<lparr>ev = IncrementalSnapshotEvent (fst x) (snd x),
                 timestamp = clock en (ticks s + length ys)\<rparr> s = Inr False"
    by (simp_all add: on_time_append)
  from observer_run_below [OF nth nf below ot1]
  have run1: "observer_run (Suc (Suc k)) en opts ys s = Some (Returned () ?s1)" .
  have nf1: "\<not> first_isFrozen ?s1" using nf by (simp add: first_isFrozen_def)
  have reach: "N \<le> incrementalSnapshotCount ?s1 + 1" using cnt xs by simp
  have sf: "safe opts ?s1"
    using otx by (auto simp: safe_def exceedTime_def split: option.splits if_splits)
  have sn1: "snapshot en (snapshots ?s1) = (Some node, idm)" using sn by simp
  have pb: "pending_buffers ?s1 = pending_buffers s" by (simp add: pending_buffers_def)
  with fuel have fuel1: "3 * pending_buffers ?s1 + 1 \<le> k" by simp
  from observerCb_reaches [OF nth pos nf1 reach sf sn1 fuel1, of "fst x" "snd x"]
  obtain r m f s4 where
    cb: "observerCb (Suc (Suc k)) en opts (fst x) (snd x) ?s1 = Some (Returned () r)"
    and ty: "type_of (ev m) = Meta" "type_of (ev f) = FullSnapshot"
    and t4: "trace s4 = trace ?s1
        @ [OnEmit (deliver opts \<lparr>ev = IncrementalSnapshotEvent (fst x) (snd x),
                                 timestamp = clock en (ticks ?s1)\<rparr>) None,
           OnEmit (deliver opts m) (Some True)]
        @ map BufLock (indices ?s1)
        @ [SnapshotCall, MirrorMapSet idm, OnEmit (deliver opts f) None]"
    and c0: "incrementalSnapshotCount s4 = 0" "lastFullSnapshotEvent s4 = Some f"
    and p4: "map pending (mutationBuffers s4) = map pending (mutationBuffers ?s1)"
    and loop: "forEach (buffer_unlock (mutationCb k en opts)) (indices ?s1) s4 = Some (Returned () r)"
    by blast
  have run: "observer_run (Suc (Suc k)) en opts xs s = Some (Returned () r)"
    using run1 cb xs by (simp add: observer_run_append)
  have ind: "indices ?s1 = indices s" by (simp add: indices_def)
  have t4': "trace s4 = trace s @ emitted en opts (ticks s) xs @ [OnEmit (deliver opts m) (Some True)]
        @ map BufLock (indices s)
        @ [SnapshotCall, MirrorMapSet idm, OnEmit (deliver opts f) None]"
    using t4 xs ind by (simp add: emitted_append)
  from p4 have p4': "map pending (mutationBuffers s4) = map pending (mutationBuffers s)" by simp
  from loop ind have loop': "forEach (buffer_unlock (mutationCb k en opts)) (indices s) s4
      = Some (Returned () r)" by simp
  from unlock_loop_after_reset [OF p4' loop'] c0
  have post: "\<exists>post. trace r = trace s4 @ post \<and>
        (pending_buffers s = 0 \<longrightarrow>
           post = map BufUnlock (indices s) \<and> incrementalSnapshotCount r = 0 \<and>
           lastFullSnapshotEvent r = Some f)"
    by simp
  show ?thesis
    using run ty t4' c0 loop' post
    by (intro exI [of _ r] exI [of _ m] exI [of _ f] exI [of _ s4] conjI)
qed

text \<open>
  C5, amended. With \<open>checkoutEveryNth = N\<close>, \<open>N > 0\<close>: the bookkeeping after an
  emitted \<open>FullSnapshot\<close> stores the event and resets the counter to \<open>0\<close>; the
  bookkeeping after an emitted \<open>IncrementalSnapshot\<close> increments the counter; below
  \<open>N\<close> (and not late) nothing else happens; when the counter reaches \<open>N\<close> in a state
  where the time comparison cannot throw, the bookkeeping is the call
  \<open>takeFullSnapshot(true)\<close>, and if then the first buffer is not paused and the
  serializer returns a node, the call returns, given enough fuel, and the next
  events handed to the consumer are \<open>Meta\<close> (with \<open>isCheckout = true\<close>) and
  \<open>FullSnapshot\<close>. Hence a run of the observers that brings the counter to exactly
  \<open>N\<close>, none of its events late, with the first buffer not paused and a serializer
  that returns a node, returns, and its trace is: the events of the run, \<open>Meta\<close>, the
  locks, the serializer call, \<open>mirror.map\<close>, \<open>FullSnapshot\<close>. In the state \<open>s4\<close>
  reached there the counter is \<open>0\<close> and the \<open>FullSnapshot\<close> is stored; the unlock loop
  runs from \<open>s4\<close>, and when no buffer withheld a mutation it only unlocks, so the
  counter is \<open>0\<close> when the run returns.
\<close>

theorem count_cadence:
  assumes "checkoutEveryNth opts = Some N" and "0 < N"
  shows "(type_of (ev g) = FullSnapshot \<longrightarrow>
            bookkeeping k en opts s g =
              Some (Returned () (s\<lparr>lastFullSnapshotEvent := Some g, incrementalSnapshotCount := 0\<rparr>))) \<and>
         (type_of (ev e) = IncrementalSnapshot \<longrightarrow>
            bookkeeping k en opts s e =
              (case exceedTime opts e (s\<lparr>incrementalSnapshotCount := incrementalSnapshotCount s + 1\<rparr>) of
                 Inl err \<Rightarrow>
                   Some (Thrown err (s\<lparr>incrementalSnapshotCount := incrementalSnapshotCount s + 1\<rparr>))
               | Inr late \<Rightarrow>
                   if N \<le> incrementalSnapshotCount s + 1 \<or> late
                   then takeFullSnapshot k en opts
                          (s\<lparr>incrementalSnapshotCount := incrementalSnapshotCount s + 1\<rparr>) True
                   else Some (Returned ()
                          (s\<lparr>incrementalSnapshotCount := incrementalSnapshotCount s + 1\<rparr>))) \<and>
            (incrementalSnapshotCount s + 1 < N \<and>
             exceedTime opts e (s\<lparr>incrementalSnapshotCount := incrementalSnapshotCount s + 1\<rparr>)
               = Inr False \<longrightarrow>
               bookkeeping k en opts s e =
                 Some (Returned () (s\<lparr>incrementalSnapshotCount := incrementalSnapshotCount s + 1\<rparr>))) \<and>
            (N \<le> incrementalSnapshotCount s + 1 \<and> safe opts s \<longrightarrow>
               bookkeeping k en opts s e =
                 takeFullSnapshot k en opts
                   (s\<lparr>incrementalSnapshotCount := incrementalSnapshotCount s + 1\<rparr>) True \<and>
               (\<not> first_isFrozen s \<and> snapshot en (snapshots s) = (Some node, idm) \<and>
                3 * pending_buffers s + 2 \<le> k \<longrightarrow>
                  (\<exists>r m f post.
                     bookkeeping k en opts s e = Some (Returned () r) \<and>
                     type_of (ev m) = Meta \<and> type_of (ev f) = FullSnapshot \<and>
                     trace r = trace s @ [OnEmit (deliver opts m) (Some True)]
                         @ map BufLock (indices s)
                         @ [SnapshotCall, MirrorMapSet idm, OnEmit (deliver opts f) None] @ post)))) \<and>
         (xs \<noteq> [] \<and> incrementalSnapshotCount s + int (length xs) = N \<and>
          on_time en opts s (ticks s) xs \<and> \<not> first_isFrozen s \<and>
          snapshot en (snapshots s) = (Some node, idm) \<and> 3 * pending_buffers s + 1 \<le> k \<longrightarrow>
            (\<exists>r m f s4.
               observer_run (Suc (Suc k)) en opts xs s = Some (Returned () r) \<and>
               type_of (ev m) = Meta \<and> type_of (ev f) = FullSnapshot \<and>
               trace s4 = trace s @ emitted en opts (ticks s) xs
                   @ [OnEmit (deliver opts m) (Some True)] @ map BufLock (indices s)
                   @ [SnapshotCall, MirrorMapSet idm, OnEmit (deliver opts f) None] \<and>
               incrementalSnapshotCount s4 = 0 \<and> lastFullSnapshotEvent s4 = Some f \<and>
               forEach (buffer_unlock (mutationCb k en opts)) (indices s) s4 = Some (Returned () r) \<and>
               (\<exists>post. trace r = trace s4 @ post \<and>
                  (pending_buffers s = 0 \<longrightarrow>
                     post = map BufUnlock (indices s) \<and> incrementalSnapshotCount r = 0 \<and>
                     lastFullSnapshotEvent r = Some f))))"
proof -
  let ?s3 = "s\<lparr>incrementalSnapshotCount := incrementalSnapshotCount s + 1\<rparr>"
  have reset: "bookkeeping k en opts s g =
      Some (Returned () (s\<lparr>lastFullSnapshotEvent := Some g, incrementalSnapshotCount := 0\<rparr>))"
    if "type_of (ev g) = FullSnapshot"
    using that by (simp add: bookkeeping_def)
  have every: "bookkeeping k en opts s e =
      (case exceedTime opts e ?s3 of
         Inl err \<Rightarrow> Some (Thrown err ?s3)
       | Inr late \<Rightarrow>
           if N \<le> incrementalSnapshotCount s + 1 \<or> late
           then takeFullSnapshot k en opts ?s3 True else Some (Returned () ?s3))"
    if "type_of (ev e) = IncrementalSnapshot"
    using that assms by (simp add: bookkeeping_def Let_def exceedCount_def split: sum.split)
  have below: "bookkeeping k en opts s e = Some (Returned () ?s3)"
    if "type_of (ev e) = IncrementalSnapshot"
      "incrementalSnapshotCount s + 1 < N \<and> exceedTime opts e ?s3 = Inr False"
    using that assms(1) by (simp add: bookkeeping_def Let_def exceedCount_def)
  have reached: "bookkeeping k en opts s e = takeFullSnapshot k en opts ?s3 True"
    if ty: "type_of (ev e) = IncrementalSnapshot"
      and n: "N \<le> incrementalSnapshotCount s + 1 \<and> safe opts s"
  proof -
    from n have "safe opts ?s3" by (simp add: safe_def)
    from exceedTime_safe [OF this] obtain late where "exceedTime opts e ?s3 = Inr late" by blast
    with ty n assms show ?thesis by (simp add: bookkeeping_def Let_def exceedCount_def)
  qed
  have shape: "\<exists>r m f post.
                  bookkeeping k en opts s e = Some (Returned () r) \<and>
                  type_of (ev m) = Meta \<and> type_of (ev f) = FullSnapshot \<and>
                  trace r = trace s @ [OnEmit (deliver opts m) (Some True)] @ map BufLock (indices s)
                      @ [SnapshotCall, MirrorMapSet idm, OnEmit (deliver opts f) None] @ post"
    if ty: "type_of (ev e) = IncrementalSnapshot"
      and n: "N \<le> incrementalSnapshotCount s + 1 \<and> safe opts s"
      and h: "\<not> first_isFrozen s \<and> snapshot en (snapshots s) = (Some node, idm) \<and>
             3 * pending_buffers s + 2 \<le> k"
  proof -
    from n have s3: "safe opts ?s3" by (simp add: safe_def)
    have "pending_buffers ?s3 = pending_buffers s" by (simp add: pending_buffers_def)
    with h have "takeFullSnapshot k en opts ?s3 True \<noteq> None"
      by (intro takeFullSnapshot_total) simp
    then obtain out where out: "takeFullSnapshot k en opts ?s3 True = Some out" by blast
    from takeFullSnapshot_returns [OF s3 out] obtain r where r: "out = Returned () r" by blast
    from out [unfolded r] obtain k' m s0 s1 where m: "meta_event en ?s3 = (m, s0)"
      and s1: "wrappedEmit k' en opts s0 m (Some True) = Some (Returned () s1)"
      and am: "after_meta k' en opts s1 = Some (Returned () r)"
      by (rule takeFullSnapshot_Returned)
    have nf: "\<not> first_isFrozen ?s3" using h by (simp add: first_isFrozen_def)
    from meta_emission [OF m s1] nf
    have tr: "trace s1 = trace ?s3 @ [OnEmit (deliver opts m) (Some True)]"
      and eq: "s1 = onEmit opts m (Some True) s0" by auto
    from eq m have "snapshots s1 = snapshots s" "length (mutationBuffers s1) = length (mutationBuffers s)"
      by (auto simp: meta_event_def wrapEvent_def onEmit_def log_action_def)
    with h have sn: "snapshot en (snapshots s1) = (Some node, idm)"
      and ind: "indices s1 = indices s" by (simp_all add: indices_def)
    from after_meta_success [OF sn am] obtain f post
      where f: "ev f = FullSnapshotEvent node
              (initialOffset (pageXOffset en) (fst (documentElement_scroll en))
                 (map_option fst (parentElement_scroll en)) (fst (body_scroll en)))
              (initialOffset (pageYOffset en) (snd (documentElement_scroll en))
                 (map_option snd (parentElement_scroll en)) (snd (body_scroll en)))"
        and t: "trace r = trace s1 @ map BufLock (indices s1)
               @ [SnapshotCall, MirrorMapSet idm, OnEmit (deliver opts f) None] @ post"
      by blast
    from f have "type_of (ev f) = FullSnapshot" by simp
    with reached [OF ty n] out r t tr ind type_of_meta_event [OF m] show ?thesis
      by (intro exI [of _ r] exI [of _ m] exI [of _ f] exI [of _ post]) simp
  qed
  have run: "\<exists>r m f s4.
               observer_run (Suc (Suc k)) en opts xs s = Some (Returned () r) \<and>
               type_of (ev m) = Meta \<and> type_of (ev f) = FullSnapshot \<and>
               trace s4 = trace s @ emitted en opts (ticks s) xs
                   @ [OnEmit (deliver opts m) (Some True)] @ map BufLock (indices s)
                   @ [SnapshotCall, MirrorMapSet idm, OnEmit (deliver opts f) None] \<and>
               incrementalSnapshotCount s4 = 0 \<and> lastFullSnapshotEvent s4 = Some f \<and>
               forEach (buffer_unlock (mutationCb k en opts)) (indices s) s4 = Some (Returned () r) \<and>
               (\<exists>post. trace r = trace s4 @ post \<and>
                  (pending_buffers s = 0 \<longrightarrow>
                     post = map BufUnlock (indices s) \<and> incrementalSnapshotCount r = 0 \<and>
                     lastFullSnapshotEvent r = Some f))"
    if "xs \<noteq> [] \<and> incrementalSnapshotCount s + int (length xs) = N \<and>
          on_time en opts s (ticks s) xs \<and> \<not> first_isFrozen s \<and>
          snapshot en (snapshots s) = (Some node, idm) \<and> 3 * pending_buffers s + 1 \<le> k"
    using that by (intro observer_run_reaches [OF assms]) simp_all
  show ?thesis
  proof (intro conjI impI)
    show "bookkeeping k en opts s g =
      Some (Returned () (s\<lparr>lastFullSnapshotEvent := Some g, incrementalSnapshotCount := 0\<rparr>))"
      if "type_of (ev g) = FullSnapshot" using that by (rule reset)
  next
    show "bookkeeping k en opts s e =
      (case exceedTime opts e ?s3 of
         Inl err \<Rightarrow> Some (Thrown err ?s3)
       | Inr late \<Rightarrow>
           if N \<le> incrementalSnapshotCount s + 1 \<or> late
           then takeFullSnapshot k en opts ?s3 True else Some (Returned () ?s3))"
      if "type_of (ev e) = IncrementalSnapshot" using that by (rule every)
  next
    show "bookkeeping k en opts s e = Some (Returned () ?s3)"
      if "type_of (ev e) = IncrementalSnapshot"
        "incrementalSnapshotCount s + 1 < N \<and> exceedTime opts e ?s3 = Inr False"
      using that by (rule below)
  next
    show "bookkeeping k en opts s e = takeFullSnapshot k en opts ?s3 True"
      if "type_of (ev e) = IncrementalSnapshot" "N \<le> incrementalSnapshotCount s + 1 \<and> safe opts s"
      using that by (rule reached)
  next
    show "\<exists>r m f post.
                  bookkeeping k en opts s e = Some (Returned () r) \<and>
                  type_of (ev m) = Meta \<and> type_of (ev f) = FullSnapshot \<and>
                  trace r = trace s @ [OnEmit (deliver opts m) (Some True)] @ map BufLock (indices s)
                      @ [SnapshotCall, MirrorMapSet idm, OnEmit (deliver opts f) None] @ post"
      if "type_of (ev e) = IncrementalSnapshot" "N \<le> incrementalSnapshotCount s + 1 \<and> safe opts s"
        "\<not> first_isFrozen s \<and> snapshot en (snapshots s) = (Some node, idm) \<and>
             3 * pending_buffers s + 2 \<le> k"
      using that by (rule shape)
  next
    show "\<exists>r m f s4.
               observer_run (Suc (Suc k)) en opts xs s = Some (Returned () r) \<and>
               type_of (ev m) = Meta \<and> type_of (ev f) = FullSnapshot \<and>
               trace s4 = trace s @ emitted en opts (ticks s) xs
                   @ [OnEmit (deliver opts m) (Some True)] @ map BufLock (indices s)
                   @ [SnapshotCall, MirrorMapSet idm, OnEmit (deliver opts f) None] \<and>
               incrementalSnapshotCount s4 = 0 \<and> lastFullSnapshotEvent s4 = Some f \<and>
               forEach (buffer_unlock (mutationCb k en opts)) (indices s) s4 = Some (Returned () r) \<and>
               (\<exists>post. trace r = trace s4 @ post \<and>
                  (pending_buffers s = 0 \<longrightarrow>
                     post = map BufUnlock (indices s) \<and> incrementalSnapshotCount r = 0 \<and>
                     lastFullSnapshotEvent r = Some f))"
      if "xs \<noteq> [] \<and> incrementalSnapshotCount s + int (length xs) = N \<and>
          on_time en opts s (ticks s) xs \<and> \<not> first_isFrozen s \<and>
          snapshot en (snapshots s) = (Some node, idm) \<and> 3 * pending_buffers s + 1 \<le> k"
      using that by (rule run)
  qed
qed


theorem count_cadence_witness:
  "checkoutEveryNth (opts_nth 2) = Some 2 \<and>
   type_of (ev (fullSnapshot_at 5000)) = FullSnapshot \<and>
   bookkeeping 5 page_ok (opts_nth 2) (session_started\<lparr>incrementalSnapshotCount := 1\<rparr>)
       (fullSnapshot_at 5000) =
     Some (Returned ()
       (session_started\<lparr>lastFullSnapshotEvent := Some (fullSnapshot_at 5000),
          incrementalSnapshotCount := 0\<rparr>)) \<and>
   type_of (ev (click_at 3000)) = IncrementalSnapshot \<and>
   safe (opts_nth 2) (session_started\<lparr>incrementalSnapshotCount := 1\<rparr>) \<and>
   incrementalSnapshotCount session_started + 1 < 2 \<and>
   bookkeeping 5 page_ok (opts_nth 2) session_started (click_at 3000) =
     Some (Returned () (session_started\<lparr>incrementalSnapshotCount := 1\<rparr>)) \<and>
   2 \<le> incrementalSnapshotCount (session_started\<lparr>incrementalSnapshotCount := 1\<rparr>) + 1 \<and>
   \<not> first_isFrozen (session_started\<lparr>incrementalSnapshotCount := 1\<rparr>) \<and>
   snapshot page_ok (snapshots (session_started\<lparr>incrementalSnapshotCount := 1\<rparr>)) = (Some 7, 42) \<and>
   (\<exists>r m f post.
      bookkeeping 5 page_ok (opts_nth 2) (session_started\<lparr>incrementalSnapshotCount := 1\<rparr>)
        (click_at 4000) = Some (Returned () r) \<and>
      type_of (ev m) = Meta \<and> type_of (ev f) = FullSnapshot \<and>
      trace r = trace session_started @ [OnEmit (Plain m) (Some True)] @ [BufLock 0]
          @ [SnapshotCall, MirrorMapSet 42, OnEmit (Plain f) None] @ post) \<and>
   incrementalSnapshotCount session_started + int (length [(MouseInteraction, [1]), (Scroll, [2::nat])]) = 2 \<and>
   on_time page_ok (opts_nth 2) session_started (ticks session_started)
     [(MouseInteraction, [1]), (Scroll, [2])] \<and>
   pending_buffers session_started = 0 \<and>
   observer_run 3 page_ok (opts_nth 2) [(MouseInteraction, [1]), (Scroll, [2])] session_started
     = Some (Returned () after_two_events) \<and>
   incrementalSnapshotCount after_two_events = 0 \<and>
   (\<exists>m f. type_of (ev m) = Meta \<and> type_of (ev f) = FullSnapshot \<and>
      lastFullSnapshotEvent after_two_events = Some f \<and>
      trace after_two_events =
        trace session_started
          @ emitted page_ok (opts_nth 2) 2 [(MouseInteraction, [1]), (Scroll, [2])]
          @ [OnEmit (Plain m) (Some True), BufLock 0, SnapshotCall, MirrorMapSet 42,
             OnEmit (Plain f) None, BufUnlock 0])"
proof -
  let ?s = "session_started\<lparr>incrementalSnapshotCount := 1\<rparr>"
  let ?xs = "[(MouseInteraction, [1]), (Scroll, [2::nat])]"
  have a: "checkoutEveryNth (opts_nth 2) = Some 2" and b: "(0::int) < 2"
    and c: "type_of (ev (click_at t)) = IncrementalSnapshot"
    and d: "safe (opts_nth 2) ?s"
    and e: "incrementalSnapshotCount session_started + 1 < 2"
    and f: "exceedTime (opts_nth 2) (click_at 3000)
              (session_started\<lparr>incrementalSnapshotCount := incrementalSnapshotCount session_started + 1\<rparr>)
            = Inr False"
    and g: "2 \<le> incrementalSnapshotCount ?s + 1" "\<not> first_isFrozen ?s"
      "snapshot page_ok (snapshots ?s) = (Some 7, 42)" "3 * pending_buffers ?s + 2 \<le> 5"
    and h: "incrementalSnapshotCount session_started = 0" "indices ?s = [0]"
      "deliver (opts_nth 2) = Plain" "trace ?s = trace session_started"
    and fs: "type_of (ev (fullSnapshot_at 5000)) = FullSnapshot"
    and fr: "?s\<lparr>lastFullSnapshotEvent := Some (fullSnapshot_at 5000), incrementalSnapshotCount := 0\<rparr>
             = session_started\<lparr>lastFullSnapshotEvent := Some (fullSnapshot_at 5000),
                 incrementalSnapshotCount := 0\<rparr>"
    for t
    by (auto simp: example_defs safe_def exceedTime_def first_isFrozen_def pending_buffers_def
        indices_def deliver_def)
  have x: "?xs \<noteq> []" "incrementalSnapshotCount session_started + int (length ?xs) = 2"
    "on_time page_ok (opts_nth 2) session_started (ticks session_started) ?xs"
    "\<not> first_isFrozen session_started"
    "snapshot page_ok (snapshots session_started) = (Some 7, 42)"
    "3 * pending_buffers session_started + 1 \<le> 1" "pending_buffers session_started = 0"
    "indices session_started = [0]" "ticks session_started = 2"
    by (simp_all add: example_defs exceedTime_def first_isFrozen_def pending_buffers_def indices_def)
  have run: "observer_run 3 page_ok (opts_nth 2) ?xs session_started = Some (Returned () after_two_events)"
    by (simp add: run_simps example_defs eval_nat_numeral)
  from count_cadence [OF a b, where g = "fullSnapshot_at 5000" and k = 5 and en = page_ok and s = ?s,
      THEN conjunct1, THEN mp, OF fs] fr
  have 0: "bookkeeping 5 page_ok (opts_nth 2) ?s (fullSnapshot_at 5000) =
     Some (Returned ()
       (session_started\<lparr>lastFullSnapshotEvent := Some (fullSnapshot_at 5000),
          incrementalSnapshotCount := 0\<rparr>))" by simp
  from count_cadence [OF a b, where e = "click_at 3000" and k = 5 and en = page_ok
      and s = session_started, THEN conjunct2, THEN conjunct1, THEN mp, OF c [of 3000],
      THEN conjunct2, THEN conjunct1, THEN mp, OF conjI [OF e f]] h(1)
  have 1: "bookkeeping 5 page_ok (opts_nth 2) session_started (click_at 3000) =
     Some (Returned () ?s)" by simp
  from g(2-4) have g': "\<not> first_isFrozen ?s \<and> snapshot page_ok (snapshots ?s) = (Some 7, 42) \<and>
      3 * pending_buffers ?s + 2 \<le> 5" by blast
  from count_cadence [OF a b, where e = "click_at 4000" and k = 5 and en = page_ok and s = ?s
      and node = 7 and idm = 42, THEN conjunct2, THEN conjunct1, THEN mp, OF c [of 4000],
      THEN conjunct2, THEN conjunct2, THEN mp, OF conjI [OF g(1) d],
      THEN conjunct2, THEN mp, OF g']
  obtain r m f post where
    "bookkeeping 5 page_ok (opts_nth 2) ?s (click_at 4000) = Some (Returned () r)"
    "type_of (ev m) = Meta" "type_of (ev f) = FullSnapshot"
    "trace r = trace ?s @ [OnEmit (deliver (opts_nth 2) m) (Some True)] @ map BufLock (indices ?s)
        @ [SnapshotCall, MirrorMapSet 42, OnEmit (deliver (opts_nth 2) f) None] @ post"
    by blast
  with h have 2: "\<exists>r m f post.
      bookkeeping 5 page_ok (opts_nth 2) ?s (click_at 4000) = Some (Returned () r) \<and>
      type_of (ev m) = Meta \<and> type_of (ev f) = FullSnapshot \<and>
      trace r = trace session_started @ [OnEmit (Plain m) (Some True)] @ [BufLock 0]
          @ [SnapshotCall, MirrorMapSet 42, OnEmit (Plain f) None] @ post"
    by auto
  have hyp: "?xs \<noteq> [] \<and> incrementalSnapshotCount session_started + int (length ?xs) = 2 \<and>
      on_time page_ok (opts_nth 2) session_started (ticks session_started) ?xs \<and>
      \<not> first_isFrozen session_started \<and>
      snapshot page_ok (snapshots session_started) = (Some 7, 42) \<and>
      3 * pending_buffers session_started + 1 \<le> 1"
    using x(1-6) by blast
  have three: "Suc (Suc 1) = 3" by simp
  from count_cadence [OF a b, where xs = ?xs and k = 1 and en = page_ok and s = session_started
      and node = 7 and idm = 42, THEN conjunct2, THEN conjunct2, THEN mp, OF hyp, unfolded three]
  obtain r m f s4 post where
    r: "observer_run 3 page_ok (opts_nth 2) ?xs session_started = Some (Returned () r)"
    and ty: "type_of (ev m) = Meta" "type_of (ev f) = FullSnapshot"
    and t4: "trace (s4::world) = trace session_started
        @ emitted page_ok (opts_nth 2) (ticks session_started) ?xs
        @ [OnEmit (deliver (opts_nth 2) m) (Some True)] @ map BufLock (indices session_started)
        @ [SnapshotCall, MirrorMapSet 42, OnEmit (deliver (opts_nth 2) f) None]"
    and tr: "trace r = trace s4 @ post"
    and fin: "pending_buffers session_started = 0 \<longrightarrow>
       post = map BufUnlock (indices session_started) \<and> incrementalSnapshotCount r = 0 \<and>
       lastFullSnapshotEvent r = Some f"
    by (elim exE conjE) (rule that; assumption)
  from r run have req: "r = after_two_events" by simp
  from fin x(7) have fin': "post = map BufUnlock (indices session_started)"
    "incrementalSnapshotCount r = 0" "lastFullSnapshotEvent r = Some f" by simp_all
  have 3: "incrementalSnapshotCount after_two_events = 0" using fin'(2) req by simp
  have "lastFullSnapshotEvent after_two_events = Some f \<and>
      trace after_two_events =
        trace session_started @ emitted page_ok (opts_nth 2) 2 ?xs
          @ [OnEmit (Plain m) (Some True), BufLock 0, SnapshotCall, MirrorMapSet 42,
             OnEmit (Plain f) None, BufUnlock 0]"
    using fin'(1,3) tr t4 req h(3) x(8,9) by simp
  with ty have 4: "\<exists>m f. type_of (ev m) = Meta \<and> type_of (ev f) = FullSnapshot \<and>
      lastFullSnapshotEvent after_two_events = Some f \<and>
      trace after_two_events =
        trace session_started @ emitted page_ok (opts_nth 2) 2 ?xs
          @ [OnEmit (Plain m) (Some True), BufLock 0, SnapshotCall, MirrorMapSet 42,
             OnEmit (Plain f) None, BufUnlock 0]"
    by blast
  from a fs 0 c [of 3000] d e 1 g(1-3) 2 x(2,3,7) run 3 4 show ?thesis by simp
qed

end
